theory Spec2Isabelle
  imports
    Complex_Main
    "HOL-Library.Char_ord"
    "HOL-Library.List_Lexorder"
    "HOL-Library.Option_ord"
    "HOL-Library.Multiset"
begin

section \<open>Python values\<close>

text \<open>
  A transaction arrives as a JSON object decoded into a Python dict. A key of such a dict
  is in one of three states, and the source tells them apart: \<^verbatim>\<open>tx.get(k)\<close> is
  \<^verbatim>\<open>None\<close> for a key that is missing and for a key whose value is \<^verbatim>\<open>null\<close>,
  \<^verbatim>\<open>tx.get(k, d)\<close> is \<^verbatim>\<open>d\<close> only for the missing key, and \<^verbatim>\<open>tx[k]\<close> raises
  \<^verbatim>\<open>KeyError\<close> for the missing key. A value that is present has the JSON type the
  upstream documents for the key.
\<close>

datatype 'a field = Missing | Null | Val 'a

datatype error = KeyError | TypeError | AttributeError | DeliveryError

definition dict_get :: "'a field \<Rightarrow> 'a option" where
  "dict_get f = (case f of Missing \<Rightarrow> None | Null \<Rightarrow> None | Val v \<Rightarrow> Some v)"

definition dict_get_default :: "'a field \<Rightarrow> 'a \<Rightarrow> 'a option" where
  "dict_get_default f d = (case f of Missing \<Rightarrow> Some d | Null \<Rightarrow> None | Val v \<Rightarrow> Some v)"

definition dict_index :: "'a field \<Rightarrow> error + 'a option" where
  "dict_index f = (case f of Missing \<Rightarrow> Inl KeyError | Null \<Rightarrow> Inr None | Val v \<Rightarrow> Inr (Some v))"

definition dict_store :: "'a option \<Rightarrow> 'a field" where
  "dict_store v = (case v of None \<Rightarrow> Null | Some x \<Rightarrow> Val x)"

text \<open>Truth value of an optional string: \<^verbatim>\<open>None\<close> and \<^verbatim>\<open>""\<close> are false.\<close>

definition truthy :: "string option \<Rightarrow> bool" where
  "truthy v = (case v of None \<Rightarrow> False | Some s \<Rightarrow> s \<noteq> [])"

text \<open>\<^verbatim>\<open>a or b\<close>: the first operand when it is true, the second otherwise.\<close>

definition py_or :: "string option \<Rightarrow> string option \<Rightarrow> string option" where
  "py_or a b = (if truthy a then a else b)"

text \<open>\<^verbatim>\<open>a or "literal"\<close>, whose value is always a string.\<close>

definition py_or_str :: "string option \<Rightarrow> string \<Rightarrow> string" where
  "py_or_str a d = (case a of None \<Rightarrow> d | Some s \<Rightarrow> if s \<noteq> [] then s else d)"

subsection \<open>Strings\<close>

text \<open>
  A character is a code point below 256, and strings compare by code point, as Python's do.
  \<^verbatim>\<open>str.lower\<close> on these code points: the cased letters with a lower-case form are
  \<^verbatim>\<open>A\<close> to \<^verbatim>\<open>Z\<close> and \<^verbatim>\<open>U+00C0\<close> to \<^verbatim>\<open>U+00DE\<close> without the multiplication sign
  \<^verbatim>\<open>U+00D7\<close>, and the lower-case form is 32 code points up; every other code point is
  left as it is. Text with code points from 256 on is outside the model.
\<close>

definition char_lower :: "char \<Rightarrow> char" where
  "char_lower c =
     (if (CHR ''A'' \<le> c \<and> c \<le> CHR ''Z'')
         \<or> (CHR 0xC0 \<le> c \<and> c \<le> CHR 0xDE \<and> c \<noteq> CHR 0xD7)
      then char_of (of_char c + (32::nat)) else c)"

definition py_lower :: "string \<Rightarrow> string" where
  "py_lower s = map char_lower s"

text \<open>\<^verbatim>\<open>sub in s\<close> for strings.\<close>

fun py_in :: "string \<Rightarrow> string \<Rightarrow> bool" where
  "py_in sub [] = (sub = [])"
| "py_in sub (c # cs) = (take (length sub) (c # cs) = sub \<or> py_in sub cs)"

section \<open>Transactions as the upstream serves them\<close>

record card_details =
  cd_merchantName :: "string field"

record raw_tx =
  tx_id :: "string field"
  account_id :: "string field"
  createdAt :: "string field"
  amount :: "real field"
  kind :: "string field"
  merchantName :: "string field"
  counterpartyName :: "string field"
  bankDescription :: "string field"
  cardDetails :: "card_details field"
  description :: "string field"
  mercuryCategory :: "string field"
  account_name :: "string field"
  account_type :: "string field"

text \<open>\<^verbatim>\<open>tx.get("id")\<close>: the identity under which a record is deduplicated.\<close>

definition tx_key :: "raw_tx \<Rightarrow> string option" where
  "tx_key tx = dict_get (tx_id tx)"

text \<open>\<^verbatim>\<open>(tx.get("cardDetails") or {}).get("merchantName")\<close>\<close>

definition card_merchant :: "raw_tx \<Rightarrow> string option" where
  "card_merchant tx =
     (case dict_get (cardDetails tx) of None \<Rightarrow> None | Some cd \<Rightarrow> dict_get (cd_merchantName cd))"

text \<open>An account as \<^verbatim>\<open>fetch_mercury_accounts\<close> returns it; only these keys are read.\<close>

record account =
  a_id :: "string field"
  a_name :: "string field"
  a_nickname :: "string field"

section \<open>Vendor derivation\<close>

text \<open>\<^verbatim>\<open>TransactionMonitor.get_vendor_name\<close> (transaction_monitor.py).\<close>

definition get_vendor_name :: "raw_tx \<Rightarrow> string" where
  "get_vendor_name tx =
     py_or_str
       (py_or (py_or (py_or (dict_get (merchantName tx)) (dict_get (counterpartyName tx)))
                     (dict_get (bankDescription tx)))
              (card_merchant tx))
       ''Unknown Vendor''"

text \<open>
  The expression bound to \<^verbatim>\<open>vendor_name\<close> in \<^verbatim>\<open>initial_sync_all_accounts\<close>,
  \<^verbatim>\<open>incremental_sync\<close>, \<^verbatim>\<open>cache_transactions_daily\<close> and
  \<^verbatim>\<open>fetch_transactions_for_arbitrary_month\<close> (main.py); the four copies are the same.
\<close>

definition sync_vendor_name :: "raw_tx \<Rightarrow> string option" where
  "sync_vendor_name tx =
     py_or (py_or (py_or (py_or (dict_get (merchantName tx)) (dict_get (counterpartyName tx)))
                         (dict_get (bankDescription tx)))
                  (card_merchant tx))
           (dict_get (description tx))"

text \<open>
  The chain as the specification words it: merchant name, counterparty name, bank
  description, card-detail merchant name, raw description, then the literal.
\<close>

definition spec_vendor_chain :: "raw_tx \<Rightarrow> string" where
  "spec_vendor_chain tx =
     py_or_str
       (py_or (py_or (py_or (py_or (dict_get (merchantName tx)) (dict_get (counterpartyName tx)))
                            (dict_get (bankDescription tx)))
                     (card_merchant tx))
              (dict_get (description tx)))
       ''Unknown Vendor''"

text \<open>The first true value among the four name fields both sites consult, if any.\<close>

definition first_name :: "raw_tx \<Rightarrow> string option" where
  "first_name tx =
     (if truthy (dict_get (merchantName tx)) then dict_get (merchantName tx)
      else if truthy (dict_get (counterpartyName tx)) then dict_get (counterpartyName tx)
      else if truthy (dict_get (bankDescription tx)) then dict_get (bankDescription tx)
      else if truthy (card_merchant tx) then card_merchant tx
      else None)"

text \<open>A record with no key at all.\<close>

definition empty_tx :: raw_tx where
  "empty_tx = \<lparr> tx_id = Missing, account_id = Missing, createdAt = Missing, amount = Missing,
     kind = Missing, merchantName = Missing, counterpartyName = Missing,
     bankDescription = Missing, cardDetails = Missing, description = Missing,
     mercuryCategory = Missing, account_name = Missing, account_type = Missing \<rparr>"

section \<open>The durable transaction store\<close>

text \<open>
  The table \<^verbatim>\<open>transactions\<close> of \<^verbatim>\<open>init_db\<close>: nine columns, \<^verbatim>\<open>id TEXT PRIMARY KEY\<close>.
  A column holds \<^verbatim>\<open>NULL\<close> (\<open>None\<close>) or a value. The dicts handed to
  \<^verbatim>\<open>upsert_transactions\<close> are read with \<^verbatim>\<open>tx.get\<close> only, so a row is what those
  nine reads return.
\<close>

record row =
  r_id :: "string option"
  r_account_id :: "string option"
  r_createdAt :: "string option"
  r_amount :: "real option"
  r_kind :: "string option"
  r_vendorName :: "string option"
  r_counterpartyName :: "string option"
  r_bankDescription :: "string option"
  r_mercuryCategory :: "string option"

text \<open>The rows of the table, oldest insertion first.\<close>

type_synonym store = "row list"

text \<open>
  \<^verbatim>\<open>INSERT OR REPLACE INTO transactions ...\<close> as SQLite runs it on this table: the rows
  that hold the new row's id are deleted, then the new row is added. The table is an
  ordinary rowid table and the key column is not declared \<^verbatim>\<open>NOT NULL\<close>, so SQLite
  accepts \<^verbatim>\<open>NULL\<close> in it and no two \<^verbatim>\<open>NULL\<close>s conflict: a row with no id replaces
  nothing.
\<close>

definition insert_or_replace :: "row \<Rightarrow> store \<Rightarrow> store" where
  "insert_or_replace r db =
     (case r_id r of
        None \<Rightarrow> db @ [r]
      | Some i \<Rightarrow> filter (\<lambda>x. r_id x \<noteq> Some i) db @ [r])"

text \<open>The nested \<^verbatim>\<open>_upsert(batch)\<close>: one statement per record, then commit.\<close>

definition inner_upsert :: "row list \<Rightarrow> store \<Rightarrow> store" where
  "inner_upsert batch db = fold insert_or_replace batch db"

text \<open>\<^verbatim>\<open>for i in range(0, len(transactions), 500): _upsert(transactions[i:i+500])\<close>\<close>

function upsert_from :: "nat \<Rightarrow> row list \<Rightarrow> store \<Rightarrow> store" where
  "upsert_from i transactions db =
     (if i < length transactions
      then upsert_from (i + 500) transactions (inner_upsert (take 500 (drop i transactions)) db)
      else db)"
  by pat_completeness auto
termination
  by (relation "measure (\<lambda>(i, transactions, db). length transactions - i)") auto

declare upsert_from.simps [simp del]

definition upsert_transactions :: "row list \<Rightarrow> store \<Rightarrow> store" where
  "upsert_transactions transactions db = upsert_from 0 transactions db"

text \<open>
  \<^verbatim>\<open>SELECT MAX(createdAt) FROM transactions\<close>: the aggregate skips \<^verbatim>\<open>NULL\<close>s and is
  \<^verbatim>\<open>NULL\<close> when no value is left.
\<close>

fun sql_max :: "'a::linorder option list \<Rightarrow> 'a option" where
  "sql_max [] = None"
| "sql_max (None # vs) = sql_max vs"
| "sql_max (Some v # vs) = (case sql_max vs of None \<Rightarrow> Some v | Some m \<Rightarrow> Some (max v m))"

text \<open>
  \<^verbatim>\<open>get_max_createdAt\<close>: the aggregate query returns one row, so \<^verbatim>\<open>row[0] if row else None\<close>
  is its single column.
\<close>

definition get_max_createdAt :: "store \<Rightarrow> string option" where
  "get_max_createdAt db = sql_max (map r_createdAt db)"

subsection \<open>Month query\<close>

definition digit_char :: "nat \<Rightarrow> char" where
  "digit_char d = char_of (48 + d)"

function digits :: "nat \<Rightarrow> string" where
  "digits n = (if n < 10 then [digit_char n] else digits (n div 10) @ [digit_char (n mod 10)])"
  by pat_completeness auto
termination
  by (relation "measure (\<lambda>n. n)") auto

declare digits.simps [simp del]

definition zfill :: "nat \<Rightarrow> string \<Rightarrow> string" where
  "zfill w s = replicate (w - length s) (CHR ''0'') @ s"

text \<open>The format specification \<^verbatim>\<open>0wd\<close> of an f-string: sign first, zeros up to the width.\<close>

definition fmt_0d :: "nat \<Rightarrow> int \<Rightarrow> string" where
  "fmt_0d w n =
     (if n < 0 then CHR ''-'' # zfill (w - 1) (digits (nat (- n))) else zfill w (digits (nat n)))"

text \<open>\<^verbatim>\<open>f"{year:04d}-{month:02d}-01T00:00:00+00:00"\<close>\<close>

definition month_start :: "int \<Rightarrow> int \<Rightarrow> string" where
  "month_start year month = fmt_0d 4 year @ ''-'' @ fmt_0d 2 month @ ''-01T00:00:00+00:00''"

definition next_month :: "int \<Rightarrow> int \<Rightarrow> int \<times> int" where
  "next_month year month = (if month = 12 then (year + 1, 1) else (year, month + 1))"

text \<open>
  A timestamp text in the layout of the bounds: the year in four digits, the month in two,
  then \<open>rest\<close> for the day, the time and the zone.
\<close>

definition timestamp_text :: "nat \<Rightarrow> nat \<Rightarrow> string \<Rightarrow> string" where
  "timestamp_text y m rest = fmt_0d 4 (int y) @ ''-'' @ fmt_0d 2 (int m) @ ''-'' @ rest"

text \<open>
  \<^verbatim>\<open>WHERE createdAt >= ? AND createdAt < ?\<close>: a comparison with \<^verbatim>\<open>NULL\<close> is not true.
  Text is compared byte by byte.
\<close>

definition created_between :: "string \<Rightarrow> string \<Rightarrow> row \<Rightarrow> bool" where
  "created_between start end r =
     (case r_createdAt r of None \<Rightarrow> False | Some c \<Rightarrow> start \<le> c \<and> c < end)"

text \<open>
  \<^verbatim>\<open>get_cached_transactions_for_month\<close>. \<^verbatim>\<open>ORDER BY createdAt ASC\<close> fixes the order up
  to rows with equal keys; the model keeps such rows in table order.
\<close>

definition get_cached_transactions_for_month :: "store \<Rightarrow> int \<Rightarrow> int \<Rightarrow> row list" where
  "get_cached_transactions_for_month db year month =
     (let start = month_start year month;
          (end_year, end_month) = next_month year month;
          end = month_start end_year end_month
      in sort_key r_createdAt (filter (created_between start end) db))"

text \<open>A row for worked examples: an id, a timestamp, and nothing else of interest.\<close>

definition example_row :: "string \<Rightarrow> string option \<Rightarrow> row" where
  "example_row i c = \<lparr> r_id = Some i, r_account_id = Some ''acc1'', r_createdAt = c,
     r_amount = Some 0, r_kind = Some [], r_vendorName = None, r_counterpartyName = None,
     r_bankDescription = None, r_mercuryCategory = None \<rparr>"

section \<open>The upstream transaction source\<close>

text \<open>
  One page request of \<^verbatim>\<open>fetch_all_tx_for_account\<close>: the query parameters \<^verbatim>\<open>limit\<close>,
  \<^verbatim>\<open>before\<close> and \<^verbatim>\<open>from\<close> (the last two are sent only when they are true), and of the
  response the status code and \<^verbatim>\<open>r.json().get("transactions", [])\<close>.
\<close>

record params =
  p_limit :: nat
  p_before :: "string option"
  p_from :: "string option"

record response =
  status_code :: nat
  body_transactions :: "raw_tx list"

text \<open>\<^verbatim>\<open>aft and batch[-1]["createdAt"] < aft\<close>, with the exceptions of the subscript and of \<^verbatim>\<open><\<close>.\<close>

definition crossed :: "string option \<Rightarrow> raw_tx \<Rightarrow> error + bool" where
  "crossed aft tx =
     (case aft of
        None \<Rightarrow> Inr False
      | Some a \<Rightarrow>
          if a = [] then Inr False
          else case createdAt tx of
            Missing \<Rightarrow> Inl KeyError
          | Null \<Rightarrow> Inl TypeError
          | Val c \<Rightarrow> Inr (c < a))"

text \<open>
  The loop \<^verbatim>\<open>while True\<close> of \<^verbatim>\<open>_fetch_all\<close> (main.py; the method of
  \<^verbatim>\<open>EnhancedMercuryAPI\<close> is the same text). \<open>http_get\<close> answers a page request for the
  account's URL. The loop has no bound of its own: \<open>None\<close> is a run that never returns,
  \<open>Some (Inl e)\<close> one that raises, \<open>Some (Inr txs)\<close> one that returns \<open>txs\<close>.
\<close>

partial_function (option) fetch_loop ::
  "(params \<Rightarrow> response) \<Rightarrow> string \<Rightarrow> string option \<Rightarrow> string option \<Rightarrow> raw_tx list
   \<Rightarrow> (error + raw_tx list) option"
where
  "fetch_loop http_get acc_id aft cursor collected =
     (let r = http_get \<lparr> p_limit = 100,
                          p_before = (if truthy cursor then cursor else None),
                          p_from = (if truthy aft then aft else None) \<rparr>
      in if status_code r \<noteq> 200 then Some (Inr collected)
         else if body_transactions r = [] then Some (Inr collected)
         else case crossed aft (last (body_transactions r)) of
           Inl e \<Rightarrow> Some (Inl e)
         | Inr stop \<Rightarrow>
             if stop
             then Some (Inr (collected @ map (\<lambda>tx. tx\<lparr>account_id := Val acc_id\<rparr>) (body_transactions r)))
             else if \<not> truthy (tx_key (last (body_transactions r)))
             then Some (Inr (collected @ map (\<lambda>tx. tx\<lparr>account_id := Val acc_id\<rparr>) (body_transactions r)))
             else fetch_loop http_get acc_id aft (tx_key (last (body_transactions r)))
                    (collected @ map (\<lambda>tx. tx\<lparr>account_id := Val acc_id\<rparr>) (body_transactions r)))"

definition fetch_all_tx_for_account ::
  "(params \<Rightarrow> response) \<Rightarrow> string \<Rightarrow> string option \<Rightarrow> (error + raw_tx list) option"
where
  "fetch_all_tx_for_account http_get acct_id after = fetch_loop http_get acct_id after None []"

subsection \<open>A synthetic upstream\<close>

text \<open>
  The upstream is not part of the repository. This one is the source of the specification's
  pagination property: it holds one list of transactions for the account, newest first, and
  answers every request with status 200 and the next page of at most \<open>page_size\<close> records
  (and at most \<^verbatim>\<open>limit\<close>) after the record whose id is the \<^verbatim>\<open>before\<close> cursor. With
  \<open>applies_from\<close> it serves only the records at or after the \<^verbatim>\<open>from\<close> bound; without,
  it ignores the bound and leaves the cut to the client.
\<close>

definition after_cursor :: "string option \<Rightarrow> raw_tx list \<Rightarrow> raw_tx list" where
  "after_cursor before txs =
     (case before of
        None \<Rightarrow> txs
      | Some c \<Rightarrow> drop 1 (dropWhile (\<lambda>t. tx_key t \<noteq> Some c) txs))"

definition in_window :: "string option \<Rightarrow> raw_tx \<Rightarrow> bool" where
  "in_window bound tx =
     (case bound of
        None \<Rightarrow> True
      | Some b \<Rightarrow> (case dict_get (createdAt tx) of None \<Rightarrow> False | Some c \<Rightarrow> b \<le> c))"

definition serve :: "bool \<Rightarrow> nat \<Rightarrow> raw_tx list \<Rightarrow> params \<Rightarrow> response" where
  "serve applies_from page_size txs p =
     \<lparr> status_code = 200,
       body_transactions =
         take (min (p_limit p) page_size)
           (after_cursor (p_before p)
             (if applies_from then filter (in_window (p_from p)) txs else txs)) \<rparr>"

text \<open>Newest first: the timestamps never increase along the list.\<close>

definition newest_first :: "raw_tx list \<Rightarrow> bool" where
  "newest_first txs = sorted (rev (map (\<lambda>t. dict_get (createdAt t)) txs))"

text \<open>The bound a fetch sends: \<^verbatim>\<open>from\<close> is set only \<^verbatim>\<open>if aft\<close>.\<close>

definition sent_bound :: "string option \<Rightarrow> string option" where
  "sent_bound aft = (if truthy aft then aft else None)"

subsection \<open>The walk the pagination property names\<close>

text \<open>
  Written from the words of the property, not from the loop, to compare the loop with: the
  pages of \<open>n\<close> records from the start, up to and including the first page whose last
  record is below the bound; all pages when no page ends below the bound.
\<close>

function pages_up_to_bound :: "nat \<Rightarrow> string option \<Rightarrow> raw_tx list \<Rightarrow> raw_tx list" where
  "pages_up_to_bound n bound txs =
     (if n = 0 \<or> txs = [] then []
      else if in_window bound (last (take n txs))
      then take n txs @ pages_up_to_bound n bound (drop n txs)
      else take n txs)"
  by pat_completeness auto

termination
  by (relation "measure (\<lambda>(n, bound, txs). length txs)") auto

declare pages_up_to_bound.simps [simp del]

section \<open>The synchronization engine\<close>

text \<open>
  The dict that \<^verbatim>\<open>initial_sync_all_accounts\<close> and \<^verbatim>\<open>incremental_sync\<close> append to
  \<^verbatim>\<open>batch\<close> for one transaction. \<^verbatim>\<open>tx["id"]\<close> raises on a record without the key, and
  \<^verbatim>\<open>tx.get("kind", "").lower()\<close> raises on a null kind; a null id passes.
\<close>

definition normalize_tx :: "string \<Rightarrow> raw_tx \<Rightarrow> error + row" where
  "normalize_tx acct_id tx =
     (case dict_index (tx_id tx) of
        Inl e \<Rightarrow> Inl e
      | Inr i \<Rightarrow>
          (case dict_get_default (kind tx) [] of
             None \<Rightarrow> Inl AttributeError
           | Some k \<Rightarrow>
               Inr \<lparr> r_id = i, r_account_id = Some acct_id,
                     r_createdAt = dict_get (createdAt tx), r_amount = dict_get (amount tx),
                     r_kind = Some (py_lower k), r_vendorName = sync_vendor_name tx,
                     r_counterpartyName = dict_get (counterpartyName tx),
                     r_bankDescription = dict_get (bankDescription tx),
                     r_mercuryCategory = dict_get (mercuryCategory tx) \<rparr>))"

text \<open>
  The loop \<^verbatim>\<open>for tx in txs\<close> with its batch of 500 and the final \<^verbatim>\<open>if batch\<close>. An
  exception leaves the loop; what was upserted stays, the open batch is lost.
\<close>

fun sync_rows :: "string \<Rightarrow> raw_tx list \<Rightarrow> row list \<Rightarrow> store \<Rightarrow> error option \<times> store" where
  "sync_rows acct_id [] batch db =
     (None, if batch \<noteq> [] then upsert_transactions batch db else db)"
| "sync_rows acct_id (tx # txs) batch db =
     (case normalize_tx acct_id tx of
        Inl e \<Rightarrow> (Some e, db)
      | Inr r \<Rightarrow>
          if length (batch @ [r]) \<ge> 500
          then sync_rows acct_id txs [] (upsert_transactions (batch @ [r]) db)
          else sync_rows acct_id txs (batch @ [r]) db)"

text \<open>
  What a sync meets: the two account pools of \<^verbatim>\<open>fetch_mercury_accounts\<close> and, per
  account id, the upstream that answers the page requests for that account.
\<close>

record sync_env =
  core_accounts :: "account list"
  credit_accounts :: "account list"
  upstream :: "string \<Rightarrow> params \<Rightarrow> response"

text \<open>
  The loop \<^verbatim>\<open>for acct in core_accounts + credit_accounts\<close>, the same in both syncs up to
  the bound \<open>aft\<close>. Nothing catches an exception here: it ends the sync. \<open>None\<close> is a sync
  whose fetch never returns.
\<close>

fun sync_accounts ::
  "(string \<Rightarrow> params \<Rightarrow> response) \<Rightarrow> string option \<Rightarrow> account list \<Rightarrow> store
   \<Rightarrow> (error option \<times> store) option"
where
  "sync_accounts up aft [] db = Some (None, db)"
| "sync_accounts up aft (acct # rest) db =
     (case dict_get (a_id acct) of
        None \<Rightarrow> sync_accounts up aft rest db
      | Some acct_id \<Rightarrow>
          if acct_id = [] then sync_accounts up aft rest db
          else case fetch_all_tx_for_account (up acct_id) acct_id aft of
            None \<Rightarrow> None
          | Some (Inl e) \<Rightarrow> Some (Some e, db)
          | Some (Inr txs) \<Rightarrow>
              (case sync_rows acct_id txs [] db of
                 (Some e, db') \<Rightarrow> Some (Some e, db')
               | (None, db') \<Rightarrow> sync_accounts up aft rest db'))"

definition initial_sync_all_accounts :: "sync_env \<Rightarrow> store \<Rightarrow> (error option \<times> store) option" where
  "initial_sync_all_accounts env db =
     sync_accounts (upstream env) None (core_accounts env @ credit_accounts env) db"

definition incremental_sync :: "sync_env \<Rightarrow> store \<Rightarrow> (error option \<times> store) option" where
  "incremental_sync env db =
     sync_accounts (upstream env) (get_max_createdAt db)
       (core_accounts env @ credit_accounts env) db"

subsection \<open>Well-formed stores and upstreams\<close>

text \<open>The primary key: no two rows share an id that is not \<^verbatim>\<open>NULL\<close>.\<close>

definition unique_ids :: "store \<Rightarrow> bool" where
  "unique_ids db = distinct (filter (\<lambda>i. i \<noteq> None) (map r_id db))"

text \<open>
  A list of upstream transactions with identities a sync can store: every id is a
  non-empty string, no id occurs twice, and no kind is null.
\<close>

definition well_formed :: "raw_tx list \<Rightarrow> bool" where
  "well_formed txs \<longleftrightarrow>
     distinct (map tx_key txs)
     \<and> (\<forall>t\<in>set txs. truthy (tx_key t) \<and> dict_get_default (kind t) [] \<noteq> None)"

text \<open>The ids of the accounts a sync visits: those that are not empty.\<close>

definition synced_ids :: "account list \<Rightarrow> string list" where
  "synced_ids accts =
     concat (map (\<lambda>a. case dict_get (a_id a) of None \<Rightarrow> [] | Some i \<Rightarrow> if i = [] then [] else [i])
                 accts)"

text \<open>
  The synthetic upstream of a whole sync: a ledger per account id, served in pages by an
  upstream that applies the \<^verbatim>\<open>from\<close> bound.
\<close>

definition ledger_env :: "account list \<Rightarrow> nat \<Rightarrow> (string \<Rightarrow> raw_tx list) \<Rightarrow> sync_env" where
  "ledger_env accts page_size ledger =
     \<lparr> core_accounts = accts, credit_accounts = [],
       upstream = (\<lambda>i. serve True page_size (ledger i)) \<rparr>"

section \<open>The notification feed\<close>

text \<open>
  \<^verbatim>\<open>TransactionMonitor\<close> (transaction_monitor.py). Its mutable attributes are the state
  that every method takes and returns.
\<close>

record settings =
  enabled :: bool
  min_amount :: real
  include_credits :: bool
  include_debits :: bool
  exclude_categories :: "string list"
  exclude_vendors :: "string list"
  notification_cooldown :: real

record monitor =
  last_checked_transactions :: "string option set"
  notification_settings :: settings
  last_notification_time :: "string \<rightharpoonup> real"

text \<open>The state \<^verbatim>\<open>__init__\<close> builds.\<close>

definition default_settings :: settings where
  "default_settings = \<lparr> enabled = True, min_amount = 0, include_credits = True,
     include_debits = True, exclude_categories = [], exclude_vendors = [],
     notification_cooldown = 300 \<rparr>"

definition init_monitor :: monitor where
  "init_monitor = \<lparr> last_checked_transactions = {}, notification_settings = default_settings,
     last_notification_time = Map.empty \<rparr>"

subsection \<open>Filter and cooldown\<close>

text \<open>
  \<^verbatim>\<open>should_notify_transaction\<close>. \<^verbatim>\<open>tx.get(k, d)\<close> is \<^verbatim>\<open>None\<close> for a key that is
  present with value \<^verbatim>\<open>null\<close>, and \<^verbatim>\<open>abs\<close> and \<^verbatim>\<open>.lower()\<close> raise on it.
\<close>

definition should_notify_transaction :: "settings \<Rightarrow> raw_tx \<Rightarrow> error + bool" where
  "should_notify_transaction s tx =
     (if \<not> enabled s then Inr False
      else case dict_get_default (amount tx) 0 of
        None \<Rightarrow> Inl TypeError
      | Some a \<Rightarrow>
          if \<bar>a\<bar> < min_amount s then Inr False
          else case dict_get_default (kind tx) [] of
            None \<Rightarrow> Inl AttributeError
          | Some k \<Rightarrow>
              if py_in ''credit'' (py_lower k) \<and> \<not> include_credits s then Inr False
              else if py_in ''debit'' (py_lower k) \<and> \<not> include_debits s then Inr False
              else case dict_get_default (mercuryCategory tx) [] of
                None \<Rightarrow> Inl AttributeError
              | Some category \<Rightarrow>
                  if py_lower category \<in> set (map py_lower (exclude_categories s)) then Inr False
                  else if py_lower (get_vendor_name tx) \<in> set (map py_lower (exclude_vendors s))
                  then Inr False
                  else Inr True)"

text \<open>
  \<^verbatim>\<open>can_notify_vendor\<close>. The reading of \<^verbatim>\<open>datetime.now().timestamp()\<close> is the argument
  \<open>current_time\<close>; times and the cooldown are real numbers of seconds.
\<close>

definition can_notify_vendor :: "monitor \<Rightarrow> string \<Rightarrow> real \<Rightarrow> bool" where
  "can_notify_vendor m vendor current_time =
     (case last_notification_time m vendor of
        None \<Rightarrow> True
      | Some last_time \<Rightarrow> current_time - last_time \<ge> notification_cooldown (notification_settings m))"

subsection \<open>Sending\<close>

text \<open>
  What the world answers while one candidate is handled: the clock read by
  \<^verbatim>\<open>can_notify_vendor\<close>, whether \<^verbatim>\<open>create_transaction_embed\<close> and \<^verbatim>\<open>channel.send\<close>
  return, and the clock read when the cooldown is updated.
\<close>

record attempt =
  checked_at :: real
  delivered :: bool
  sent_at :: real

text \<open>
  The loop of \<^verbatim>\<open>send_transaction_notifications\<close>. It returns the exception that ended
  it, if any, the state, and the transactions notified so far. \<^verbatim>\<open>create_transaction_embed\<close>
  calls \<^verbatim>\<open>tx.get("createdAt").replace\<close>, which raises when the key is missing or null.
\<close>

fun send_loop ::
  "(raw_tx \<times> attempt) list \<Rightarrow> monitor \<Rightarrow> raw_tx list \<Rightarrow> error option \<times> monitor \<times> raw_tx list"
where
  "send_loop [] m sent = (None, m, sent)"
| "send_loop ((tx, a) # rest) m sent =
     (case should_notify_transaction (notification_settings m) tx of
        Inl e \<Rightarrow> (Some e, m, sent)
      | Inr ok \<Rightarrow>
          if \<not> ok then send_loop rest m sent
          else
            let vendor = get_vendor_name tx in
            if \<not> can_notify_vendor m vendor (checked_at a) then send_loop rest m sent
            else case dict_get (createdAt tx) of
              None \<Rightarrow> (Some AttributeError, m, sent)
            | Some created \<Rightarrow>
                if \<not> delivered a then (Some DeliveryError, m, sent)
                else send_loop rest
                  (m\<lparr>last_notification_time := (last_notification_time m)(vendor \<mapsto> sent_at a)\<rparr>)
                  (sent @ [tx]))"

text \<open>\<open>channel\<close> tells whether \<^verbatim>\<open>bot.get_channel\<close> found the notification channel.\<close>

definition send_transaction_notifications ::
  "monitor \<Rightarrow> bool \<Rightarrow> (raw_tx \<times> attempt) list \<Rightarrow> error option \<times> monitor \<times> raw_tx list"
where
  "send_transaction_notifications m channel transactions =
     (if \<not> channel then (None, m, []) else send_loop transactions m [])"

subsection \<open>Detection\<close>

text \<open>
  What one poll tick meets: the injected \<^verbatim>\<open>mercury_api\<close> (the two account pools and
  the result of \<^verbatim>\<open>fetch_all_tx_for_account\<close> for the last five minutes, per account id),
  the channel, and the answers of the world for each candidate.
\<close>

record tick_env =
  api_accounts :: "account list"
  api_credit_accounts :: "account list"
  api_fetch :: "string \<Rightarrow> error + raw_tx list"
  channel_found :: bool
  attempts :: "raw_tx \<Rightarrow> attempt"

text \<open>\<^verbatim>\<open>account.get("name", account.get("nickname", "Unknown"))\<close>\<close>

definition account_display_name :: "account \<Rightarrow> string option" where
  "account_display_name account =
     (case a_name account of
        Missing \<Rightarrow> dict_get_default (a_nickname account) ''Unknown''
      | Null \<Rightarrow> None
      | Val n \<Rightarrow> Some n)"

text \<open>The loop \<^verbatim>\<open>for tx in transactions\<close> of \<^verbatim>\<open>check_for_new_transactions\<close>.\<close>

fun scan_transactions ::
  "string option \<Rightarrow> string \<Rightarrow> raw_tx list \<Rightarrow> string option set \<Rightarrow> raw_tx list
   \<Rightarrow> string option set \<times> raw_tx list"
where
  "scan_transactions name type [] seen new_transactions = (seen, new_transactions)"
| "scan_transactions name type (tx # txs) seen new_transactions =
     (let txid = tx_key tx in
      if txid \<notin> seen
      then scan_transactions name type txs (insert txid seen)
             (new_transactions @ [tx\<lparr>account_name := dict_store name, account_type := Val type\<rparr>])
      else scan_transactions name type txs seen new_transactions)"

text \<open>
  The loop \<^verbatim>\<open>for account in all_accounts\<close>. An exception of the fetch ends it; the
  seen-set keeps what was added before.
\<close>

fun scan_accounts ::
  "tick_env \<Rightarrow> account list \<Rightarrow> string option set \<Rightarrow> raw_tx list
   \<Rightarrow> error option \<times> string option set \<times> raw_tx list"
where
  "scan_accounts env [] seen new_transactions = (None, seen, new_transactions)"
| "scan_accounts env (account # rest) seen new_transactions =
     (case dict_get (a_id account) of
        None \<Rightarrow> scan_accounts env rest seen new_transactions
      | Some acct_id \<Rightarrow>
          if acct_id = [] then scan_accounts env rest seen new_transactions
          else case api_fetch env acct_id of
            Inl e \<Rightarrow> (Some e, seen, new_transactions)
          | Inr transactions \<Rightarrow>
              (case scan_transactions (account_display_name account)
                      (if account \<in> set (api_credit_accounts env) then ''credit'' else ''core'')
                      transactions seen new_transactions of
                 (seen', new') \<Rightarrow> scan_accounts env rest seen' new'))"

text \<open>
  \<^verbatim>\<open>check_for_new_transactions\<close>: the new state and the notifications sent. The body is
  inside \<^verbatim>\<open>try\<close>: an exception is printed and the tick ends, with the state as it was
  changed up to there.
\<close>

definition check_for_new_transactions :: "monitor \<Rightarrow> tick_env \<Rightarrow> monitor \<times> raw_tx list" where
  "check_for_new_transactions m env =
     (case scan_accounts env (api_accounts env @ api_credit_accounts env)
             (last_checked_transactions m) [] of
        (Some e, seen, new_transactions) \<Rightarrow> (m\<lparr>last_checked_transactions := seen\<rparr>, [])
      | (None, seen, new_transactions) \<Rightarrow>
          if new_transactions = [] then (m\<lparr>last_checked_transactions := seen\<rparr>, [])
          else
            (case send_transaction_notifications (m\<lparr>last_checked_transactions := seen\<rparr>)
                    (channel_found env) (map (\<lambda>tx. (tx, attempts env tx)) new_transactions) of
               (err, m', sent) \<Rightarrow> (m', sent)))"

text \<open>
  The candidates of a tick: the list \<^verbatim>\<open>new_transactions\<close> that reaches
  \<^verbatim>\<open>send_transaction_notifications\<close>. After an exception in the detection loops none does.
\<close>

definition tick_candidates :: "monitor \<Rightarrow> tick_env \<Rightarrow> raw_tx list" where
  "tick_candidates m env =
     (case scan_accounts env (api_accounts env @ api_credit_accounts env)
             (last_checked_transactions m) [] of
        (Some e, seen, new_transactions) \<Rightarrow> []
      | (None, seen, new_transactions) \<Rightarrow> new_transactions)"

text \<open>
  The transactions a tick fetches, account after account in the order of the loop, or the
  first exception of a fetch.
\<close>

fun fetch_accounts :: "tick_env \<Rightarrow> account list \<Rightarrow> error + raw_tx list" where
  "fetch_accounts env [] = Inr []"
| "fetch_accounts env (account # rest) =
     (case dict_get (a_id account) of
        None \<Rightarrow> fetch_accounts env rest
      | Some acct_id \<Rightarrow>
          if acct_id = [] then fetch_accounts env rest
          else case api_fetch env acct_id of
            Inl e \<Rightarrow> Inl e
          | Inr transactions \<Rightarrow>
              (case fetch_accounts env rest of
                 Inl e \<Rightarrow> Inl e
               | Inr others \<Rightarrow> Inr (transactions @ others)))"

text \<open>
  \<^verbatim>\<open>initialize_transaction_cache\<close>: every id of the last 24 hours enters the seen-set; an
  exception ends the loop and is printed.
\<close>

fun seed_accounts :: "tick_env \<Rightarrow> account list \<Rightarrow> string option set \<Rightarrow> string option set" where
  "seed_accounts env [] seen = seen"
| "seed_accounts env (account # rest) seen =
     (case dict_get (a_id account) of
        None \<Rightarrow> seed_accounts env rest seen
      | Some acct_id \<Rightarrow>
          if acct_id = [] then seed_accounts env rest seen
          else case api_fetch env acct_id of
            Inl e \<Rightarrow> seen
          | Inr transactions \<Rightarrow>
              seed_accounts env rest (seen \<union> set (map tx_key transactions)))"

definition initialize_transaction_cache :: "monitor \<Rightarrow> tick_env \<Rightarrow> monitor" where
  "initialize_transaction_cache m env =
     m\<lparr>last_checked_transactions :=
         seed_accounts env (api_accounts env @ api_credit_accounts env)
           (last_checked_transactions m)\<rparr>"

text \<open>\<^verbatim>\<open>update_notification_settings(**kwargs)\<close>: the settings after the update.\<close>

definition update_notification_settings :: "monitor \<Rightarrow> settings \<Rightarrow> monitor" where
  "update_notification_settings m s = m\<lparr>notification_settings := s\<rparr>"

subsection \<open>The life of one process\<close>

datatype event = Initialize tick_env | Tick tick_env | UpdateSettings settings

text \<open>The feed run over a sequence of events; the notifications sent are accumulated.\<close>

fun run_feed :: "event list \<Rightarrow> monitor \<Rightarrow> raw_tx list \<Rightarrow> monitor \<times> raw_tx list" where
  "run_feed [] m sent = (m, sent)"
| "run_feed (Initialize env # evs) m sent = run_feed evs (initialize_transaction_cache m env) sent"
| "run_feed (Tick env # evs) m sent =
     (case check_for_new_transactions m env of (m', s) \<Rightarrow> run_feed evs m' (sent @ s))"
| "run_feed (UpdateSettings s # evs) m sent = run_feed evs (update_notification_settings m s) sent"

text \<open>
  \<open>c\<close> is a transaction of \<open>txs\<close> with \<^verbatim>\<open>account_name\<close> and \<^verbatim>\<open>account_type\<close>
  attached: putting the two keys back gives the transaction.
\<close>

definition tagged_from :: "raw_tx list \<Rightarrow> raw_tx \<Rightarrow> bool" where
  "tagged_from txs c \<longleftrightarrow>
     (\<exists>tx\<in>set txs. c\<lparr>account_name := account_name tx, account_type := account_type tx\<rparr> = tx)"

subsection \<open>Worked example\<close>

text \<open>A card purchase, one checking account, and a world in which every send succeeds.\<close>

definition example_tx :: "string \<Rightarrow> string \<Rightarrow> raw_tx" where
  "example_tx i c = empty_tx\<lparr> tx_id := Val i, createdAt := Val c, amount := Val (- 25),
     kind := Val ''debitCardTransaction'', merchantName := Val ''Acme Tools'' \<rparr>"

definition example_account :: account where
  "example_account = \<lparr> a_id = Val ''acc1'', a_name = Val ''Checking'', a_nickname = Missing \<rparr>"

definition example_env :: "raw_tx list \<Rightarrow> tick_env" where
  "example_env txs = \<lparr> api_accounts = [example_account], api_credit_accounts = [],
     api_fetch = (\<lambda>i. Inr txs), channel_found = True,
     attempts = (\<lambda>tx. \<lparr> checked_at = 1000, delivered = True, sent_at = 1001 \<rparr>) \<rparr>"

section \<open>Properties of the vendor derivation\<close>

lemma get_vendor_name_first:
  "get_vendor_name tx = (case first_name tx of None \<Rightarrow> ''Unknown Vendor'' | Some s \<Rightarrow> s)"
  by (auto simp: get_vendor_name_def first_name_def py_or_def py_or_str_def truthy_def
      split: option.splits)

lemma sync_vendor_name_first:
  "sync_vendor_name tx =
     (case first_name tx of None \<Rightarrow> dict_get (description tx) | Some s \<Rightarrow> Some s)"
  by (auto simp: sync_vendor_name_def first_name_def py_or_def truthy_def split: option.splits)

text \<open>
  C7, as stated, fails. A record whose only name is the raw description derives to
  \<open>''Unknown Vendor''\<close> in the notification feed, where the chain of the specification and the
  sync engine give the description; a record with no name at all derives to \<^verbatim>\<open>None\<close> in
  the sync engine, not to the literal.
\<close>

theorem vendor_chain_counterexample:
  "get_vendor_name (empty_tx\<lparr>description := Val ''ACH PULL''\<rparr>) = ''Unknown Vendor''
   \<and> spec_vendor_chain (empty_tx\<lparr>description := Val ''ACH PULL''\<rparr>) = ''ACH PULL''
   \<and> sync_vendor_name (empty_tx\<lparr>description := Val ''ACH PULL''\<rparr>) = Some ''ACH PULL''
   \<and> sync_vendor_name empty_tx = None"
  by (simp add: get_vendor_name_def spec_vendor_chain_def sync_vendor_name_def card_merchant_def
      py_or_def py_or_str_def truthy_def dict_get_def empty_tx_def)

text \<open>
  C7, amended. \<^verbatim>\<open>get_vendor_name\<close> is the chain merchant name, counterparty name, bank
  description, card-detail merchant name, then \<open>''Unknown Vendor''\<close>; it never reads the raw
  description. The sync engine's inline derivation is the same chain over the first four
  fields, then the raw description, which may be absent. The two sites agree on every
  record where one of the four name fields is non-empty. A record whose only non-empty name
  field is the bank description derives to it at both sites, and a record with none of the
  four name fields derives to \<open>''Unknown Vendor''\<close> in \<^verbatim>\<open>get_vendor_name\<close>.
\<close>

theorem vendor_derivation:
  "get_vendor_name tx = (case first_name tx of None \<Rightarrow> ''Unknown Vendor'' | Some s \<Rightarrow> s)
   \<and> sync_vendor_name tx =
       (case first_name tx of None \<Rightarrow> dict_get (description tx) | Some s \<Rightarrow> Some s)
   \<and> (first_name tx \<noteq> None \<longrightarrow> sync_vendor_name tx = Some (get_vendor_name tx))
   \<and> (\<not> truthy (dict_get (merchantName tx)) \<and> \<not> truthy (dict_get (counterpartyName tx))
        \<and> bankDescription tx = Val b \<and> b \<noteq> []
        \<longrightarrow> get_vendor_name tx = b \<and> sync_vendor_name tx = Some b)
   \<and> (\<not> truthy (dict_get (merchantName tx)) \<and> \<not> truthy (dict_get (counterpartyName tx))
        \<and> \<not> truthy (dict_get (bankDescription tx)) \<and> \<not> truthy (card_merchant tx)
        \<longrightarrow> get_vendor_name tx = ''Unknown Vendor'')"
proof -
  have agree: "first_name tx \<noteq> None \<longrightarrow> sync_vendor_name tx = Some (get_vendor_name tx)"
    by (auto simp: get_vendor_name_first sync_vendor_name_first)
  have bank: "\<not> truthy (dict_get (merchantName tx)) \<and> \<not> truthy (dict_get (counterpartyName tx))
        \<and> bankDescription tx = Val b \<and> b \<noteq> []
        \<longrightarrow> first_name tx = Some b"
    by (simp add: first_name_def truthy_def dict_get_def)
  have none: "\<not> truthy (dict_get (merchantName tx)) \<and> \<not> truthy (dict_get (counterpartyName tx))
        \<and> \<not> truthy (dict_get (bankDescription tx)) \<and> \<not> truthy (card_merchant tx)
        \<longrightarrow> first_name tx = None"
    by (simp add: first_name_def)
  show ?thesis
    using agree bank none by (simp add: get_vendor_name_first sync_vendor_name_first)
qed

theorem vendor_derivation_witness:
  "get_vendor_name (empty_tx\<lparr>bankDescription := Val ''WIRE OUT''\<rparr>) = ''WIRE OUT''
   \<and> sync_vendor_name (empty_tx\<lparr>bankDescription := Val ''WIRE OUT''\<rparr>) = Some ''WIRE OUT''
   \<and> first_name (empty_tx\<lparr>bankDescription := Val ''WIRE OUT''\<rparr>) \<noteq> None
   \<and> get_vendor_name empty_tx = ''Unknown Vendor''"
proof -
  have a: "\<not> truthy (dict_get (merchantName (empty_tx\<lparr>bankDescription := Val ''WIRE OUT''\<rparr>)))"
    and b: "\<not> truthy (dict_get (counterpartyName (empty_tx\<lparr>bankDescription := Val ''WIRE OUT''\<rparr>)))"
    and c: "bankDescription (empty_tx\<lparr>bankDescription := Val ''WIRE OUT''\<rparr>) = Val ''WIRE OUT''"
    and d: "first_name (empty_tx\<lparr>bankDescription := Val ''WIRE OUT''\<rparr>) \<noteq> None"
    by (simp_all add: truthy_def dict_get_def empty_tx_def first_name_def)
  have e: "\<not> truthy (dict_get (merchantName empty_tx))"
    "\<not> truthy (dict_get (counterpartyName empty_tx))"
    "\<not> truthy (dict_get (bankDescription empty_tx))" "\<not> truthy (card_merchant empty_tx)"
    by (simp_all add: truthy_def dict_get_def empty_tx_def card_merchant_def)
  have f: "''WIRE OUT'' \<noteq> []"
    by simp
  have 1: "get_vendor_name (empty_tx\<lparr>bankDescription := Val ''WIRE OUT''\<rparr>) = ''WIRE OUT''
      \<and> sync_vendor_name (empty_tx\<lparr>bankDescription := Val ''WIRE OUT''\<rparr>) = Some ''WIRE OUT''"
    using vendor_derivation [of "empty_tx\<lparr>bankDescription := Val ''WIRE OUT''\<rparr>" "''WIRE OUT''"]
      a b c f by blast
  have 2: "get_vendor_name empty_tx = ''Unknown Vendor''"
    using vendor_derivation [of empty_tx "[]"] e by blast
  show ?thesis
    using 1 2 d by blast
qed

section \<open>Properties of the store\<close>

lemma fold_take_drop:
  "fold f (drop i xs) s = fold f (drop (i + n) xs) (fold f (take n (drop i xs)) s)"
proof -
  have "take n (drop i xs) @ drop n (drop i xs) = drop i xs"
    by (rule append_take_drop_id)
  moreover have "drop n (drop i xs) = drop (i + n) xs"
    by (simp add: add.commute)
  ultimately have e: "drop i xs = take n (drop i xs) @ drop (i + n) xs"
    by simp
  have "fold f (take n (drop i xs) @ drop (i + n) xs) s
      = fold f (drop (i + n) xs) (fold f (take n (drop i xs)) s)"
    by simp
  then show ?thesis
    by (simp only: e [symmetric])
qed

lemma upsert_from_fold:
  "upsert_from i transactions db = fold insert_or_replace (drop i transactions) db"
proof (induction i transactions db rule: upsert_from.induct)
  case (1 i transactions db)
  show ?case
  proof (cases "i < length transactions")
    case True
    have "upsert_from i transactions db
        = upsert_from (i + 500) transactions (inner_upsert (take 500 (drop i transactions)) db)"
      using True by (subst upsert_from.simps) simp
    also have "\<dots> = fold insert_or_replace (drop (i + 500) transactions)
          (inner_upsert (take 500 (drop i transactions)) db)"
      using True by (rule "1.IH")
    also have "\<dots> = fold insert_or_replace (drop i transactions) db"
      unfolding inner_upsert_def by (rule fold_take_drop [symmetric])
    finally show ?thesis .
  next
    case False
    then show ?thesis
      by (subst upsert_from.simps) simp
  qed
qed

lemma upsert_transactions_fold:
  "upsert_transactions transactions db = fold insert_or_replace transactions db"
  by (simp add: upsert_transactions_def upsert_from_fold)

lemma upsert_single: "upsert_transactions [r] db = insert_or_replace r db"
  by (simp add: upsert_transactions_fold)

lemma ior_same_id:
  "r_id r = Some i \<Longrightarrow> filter (\<lambda>x. r_id x = Some i) (insert_or_replace r db) = [r]"
  by (simp add: insert_or_replace_def)

lemma ior_other_ids:
  "r_id r = Some i \<Longrightarrow>
   filter (\<lambda>x. r_id x \<noteq> Some i) (insert_or_replace r db) = filter (\<lambda>x. r_id x \<noteq> Some i) db"
  by (simp add: insert_or_replace_def)

lemma ior_funpow_same_id:
  "r_id r = Some i \<Longrightarrow> 1 \<le> N \<Longrightarrow>
   filter (\<lambda>x. r_id x = Some i) ((insert_or_replace r ^^ N) db) = [r]"
  by (cases N) (simp_all add: ior_same_id)

lemma ior_funpow_other_ids:
  "r_id r = Some i \<Longrightarrow>
   filter (\<lambda>x. r_id x \<noteq> Some i) ((insert_or_replace r ^^ N) db) = filter (\<lambda>x. r_id x \<noteq> Some i) db"
  by (induction N) (simp_all add: ior_other_ids)

lemma upsert_single_fun: "upsert_transactions [r] = insert_or_replace r"
  by (rule ext) (simp add: upsert_single)

lemma fold_replicate_funpow: "fold f (replicate N r) db = (f r ^^ N) db"
  by (induction N arbitrary: db) (simp_all add: funpow_swap1)

text \<open>
  C1. Upsert is idempotent, keyed by the transaction id. A record \<open>r\<close> with id \<open>i\<close> upserted
  \<open>N \<ge> 1\<close> times, by \<open>N\<close> calls or as \<open>N\<close> copies in one batch, leaves exactly one row with id
  \<open>i\<close>, the record itself, and leaves the rows of every other id as they were. Upserting a
  record \<open>r'\<close> with the same id afterwards leaves exactly one row with id \<open>i\<close>, now \<open>r'\<close>, and
  the store has as many rows as before.
\<close>

theorem upsert_idempotent:
  assumes "r_id r = Some i" and "1 \<le> N"
  shows "filter (\<lambda>x. r_id x = Some i) ((upsert_transactions [r] ^^ N) db) = [r]
    \<and> filter (\<lambda>x. r_id x \<noteq> Some i) ((upsert_transactions [r] ^^ N) db)
        = filter (\<lambda>x. r_id x \<noteq> Some i) db
    \<and> filter (\<lambda>x. r_id x = Some i) (upsert_transactions (replicate N r) db) = [r]
    \<and> (\<forall>r'. r_id r' = Some i \<longrightarrow>
          filter (\<lambda>x. r_id x = Some i)
            (upsert_transactions [r'] ((upsert_transactions [r] ^^ N) db)) = [r']
          \<and> length (upsert_transactions [r'] ((upsert_transactions [r] ^^ N) db))
             = length ((upsert_transactions [r] ^^ N) db))"
proof -
  let ?db = "(upsert_transactions [r] ^^ N) db"
  have one: "filter (\<lambda>x. r_id x = Some i) ?db = [r]"
    using assms by (simp add: upsert_single_fun ior_funpow_same_id)
  have others: "filter (\<lambda>x. r_id x \<noteq> Some i) ?db = filter (\<lambda>x. r_id x \<noteq> Some i) db"
    using assms by (simp add: upsert_single_fun ior_funpow_other_ids)
  have batch: "filter (\<lambda>x. r_id x = Some i) (upsert_transactions (replicate N r) db) = [r]"
    using assms by (simp add: upsert_transactions_fold fold_replicate_funpow ior_funpow_same_id)
  have replay: "filter (\<lambda>x. r_id x = Some i) (upsert_transactions [r'] ?db) = [r']
      \<and> length (upsert_transactions [r'] ?db) = length ?db" if r': "r_id r' = Some i" for r'
  proof -
    have "length ?db = length (filter (\<lambda>x. r_id x = Some i) ?db)
        + length (filter (\<lambda>x. r_id x \<noteq> Some i) ?db)"
      by (simp add: sum_length_filter_compl)
    then have "length ?db = 1 + length (filter (\<lambda>x. r_id x \<noteq> Some i) ?db)"
      by (simp add: one)
    moreover have "length (upsert_transactions [r'] ?db)
        = length (filter (\<lambda>x. r_id x \<noteq> Some i) ?db) + 1"
      using r' by (simp add: upsert_single insert_or_replace_def)
    ultimately show ?thesis
      using r' by (simp add: upsert_single ior_same_id)
  qed
  show ?thesis
    using one others batch replay by blast
qed

theorem upsert_idempotent_witness:
  "r_id (example_row ''t1'' (Some ''2024-01-05T10:00:00Z'')) = Some ''t1'' \<and> (1::nat) \<le> 2
   \<and> filter (\<lambda>x. r_id x = Some ''t1'')
        ((upsert_transactions [example_row ''t1'' (Some ''2024-01-05T10:00:00Z'')] ^^ 2) [])
      = [example_row ''t1'' (Some ''2024-01-05T10:00:00Z'')]
   \<and> filter (\<lambda>x. r_id x = Some ''t1'')
        (upsert_transactions [example_row ''t1'' (Some ''2024-02-01T00:00:00Z'')]
          ((upsert_transactions [example_row ''t1'' (Some ''2024-01-05T10:00:00Z'')] ^^ 2) []))
      = [example_row ''t1'' (Some ''2024-02-01T00:00:00Z'')]"
proof -
  have i: "r_id (example_row ''t1'' (Some ''2024-01-05T10:00:00Z'')) = Some ''t1''"
    and i': "r_id (example_row ''t1'' (Some ''2024-02-01T00:00:00Z'')) = Some ''t1''"
    by (simp_all add: example_row_def)
  have n: "(1::nat) \<le> 2"
    by simp
  show ?thesis
    using upsert_idempotent [OF i n, of "[]"] i i' n by blast
qed

lemma sql_max_None: "sql_max vs = None \<longleftrightarrow> (\<forall>v\<in>set vs. v = None)"
  by (induction vs rule: sql_max.induct) (auto split: option.splits)

lemma sql_max_Some_mem: "sql_max vs = Some m \<Longrightarrow> Some m \<in> set vs"
  by (induction vs arbitrary: m rule: sql_max.induct) (auto split: option.splits simp: max_def)

lemma sql_max_Some_upper: "sql_max vs = Some m \<Longrightarrow> Some c \<in> set vs \<Longrightarrow> c \<le> m"
  by (induction vs arbitrary: m rule: sql_max.induct)
    (auto split: option.splits simp: sql_max_None le_max_iff_disj)

lemma sql_max_eqI:
  assumes "Some m \<in> set vs" and "\<And>c. Some c \<in> set vs \<Longrightarrow> c \<le> m"
  shows "sql_max vs = Some m"
proof (cases "sql_max vs")
  case None
  with assms(1) show ?thesis by (auto simp: sql_max_None)
next
  case (Some k)
  have "k \<le> m" using sql_max_Some_mem [OF Some] assms(2) by blast
  moreover have "m \<le> k" using sql_max_Some_upper [OF Some assms(1)] .
  ultimately show ?thesis using Some by simp
qed

lemma ior_set_subset: "set (insert_or_replace r db) \<subseteq> insert r (set db)"
  by (auto simp: insert_or_replace_def split: option.splits)

lemma ior_new_mem: "r \<in> set (insert_or_replace r db)"
  by (auto simp: insert_or_replace_def split: option.splits)

lemma ior_keeps:
  "x \<in> set db \<Longrightarrow> r_id r = r_id x \<longrightarrow> r_id x = None \<or> r = x \<Longrightarrow>
   x \<in> set (insert_or_replace r db)"
  by (auto simp: insert_or_replace_def split: option.splits)

lemma fold_ior_set_subset: "set (fold insert_or_replace batch db) \<subseteq> set batch \<union> set db"
proof (induction batch arbitrary: db)
  case Nil
  then show ?case by simp
next
  case (Cons r batch)
  have "set (fold insert_or_replace batch (insert_or_replace r db))
      \<subseteq> set batch \<union> set (insert_or_replace r db)"
    by (rule Cons.IH)
  also have "\<dots> \<subseteq> set batch \<union> insert r (set db)"
    using ior_set_subset [of r db] by blast
  finally show ?case by auto
qed

lemma fold_ior_keeps:
  "x \<in> set db \<Longrightarrow> \<forall>r\<in>set batch. r_id r = r_id x \<longrightarrow> r_id x = None \<or> r = x \<Longrightarrow>
   x \<in> set (fold insert_or_replace batch db)"
  by (induction batch arbitrary: db) (simp_all add: ior_keeps)

lemma fold_ior_new:
  "x \<in> set batch \<Longrightarrow> \<forall>r\<in>set batch. r_id r = r_id x \<longrightarrow> r_id x = None \<or> r = x \<Longrightarrow>
   x \<in> set (fold insert_or_replace batch db)"
proof (induction batch arbitrary: db)
  case Nil
  then show ?case by simp
next
  case (Cons r batch)
  show ?case
  proof (cases "x = r")
    case True
    have "x \<in> set (insert_or_replace r db)"
      using True by (simp add: ior_new_mem)
    then show ?thesis
      using Cons.prems(2) by (simp add: fold_ior_keeps)
  next
    case False
    with Cons show ?thesis by simp
  qed
qed

text \<open>
  C4, as stated, fails: a store whose only row has no \<^verbatim>\<open>createdAt\<close> is not empty, and its
  watermark is absent. The sync engine writes such a row for an upstream record without
  \<^verbatim>\<open>createdAt\<close>.
\<close>

theorem watermark_absent_counterexample:
  "get_max_createdAt (upsert_transactions [example_row ''t1'' None] []) = None
   \<and> upsert_transactions [example_row ''t1'' None] [] \<noteq> []"
  by (simp add: upsert_transactions_fold insert_or_replace_def get_max_createdAt_def
      example_row_def)

text \<open>
  C4, amended. \<^verbatim>\<open>get_max_createdAt\<close> returns the greatest \<^verbatim>\<open>createdAt\<close> among the
  rows that have one, and is absent exactly when no row has one, as in the empty store.
  After an upsert, in any order, of three records with timestamps \<open>t1 < t2 < t3\<close>, the
  newest under an id of its own, into a store that holds nothing newer, the watermark is
  \<open>t3\<close>.
\<close>

theorem watermark_max:
  "(get_max_createdAt db = None \<longleftrightarrow> (\<forall>r\<in>set db. r_createdAt r = None))
   \<and> get_max_createdAt [] = None
   \<and> (\<forall>m. get_max_createdAt db = Some m \<longrightarrow>
         (\<exists>r\<in>set db. r_createdAt r = Some m)
         \<and> (\<forall>r\<in>set db. \<forall>c. r_createdAt r = Some c \<longrightarrow> c \<le> m))
   \<and> (r_createdAt r1 = Some t1 \<and> r_createdAt r2 = Some t2 \<and> r_createdAt r3 = Some t3
        \<and> t1 < t2 \<and> t2 < t3
        \<and> r_id r1 \<noteq> r_id r3 \<and> r_id r2 \<noteq> r_id r3
        \<and> mset batch = {#r1, r2, r3#}
        \<and> (\<forall>r\<in>set db. r_createdAt r \<le> Some t3)
        \<longrightarrow> get_max_createdAt (upsert_transactions batch db) = Some t3)"
proof -
  have none: "get_max_createdAt db = None \<longleftrightarrow> (\<forall>r\<in>set db. r_createdAt r = None)"
    by (simp add: get_max_createdAt_def sql_max_None)
  have empty: "get_max_createdAt [] = None"
    by (simp add: get_max_createdAt_def)
  have some: "\<forall>m. get_max_createdAt db = Some m \<longrightarrow>
         (\<exists>r\<in>set db. r_createdAt r = Some m)
         \<and> (\<forall>r\<in>set db. \<forall>c. r_createdAt r = Some c \<longrightarrow> c \<le> m)"
  proof (intro allI impI)
    fix m
    assume "get_max_createdAt db = Some m"
    then have *: "sql_max (map r_createdAt db) = Some m"
      by (simp add: get_max_createdAt_def)
    have "Some m \<in> r_createdAt ` set db"
      using sql_max_Some_mem [OF *] by simp
    then have ex: "\<exists>r\<in>set db. r_createdAt r = Some m"
      by force
    have "c \<le> m" if "r \<in> set db" "r_createdAt r = Some c" for r c
    proof -
      have "Some c \<in> set (map r_createdAt db)"
        using that by force
      then show ?thesis
        by (rule sql_max_Some_upper [OF *])
    qed
    with ex show "(\<exists>r\<in>set db. r_createdAt r = Some m)
         \<and> (\<forall>r\<in>set db. \<forall>c. r_createdAt r = Some c \<longrightarrow> c \<le> m)"
      by simp
  qed
  have three: "r_createdAt r1 = Some t1 \<and> r_createdAt r2 = Some t2 \<and> r_createdAt r3 = Some t3
        \<and> t1 < t2 \<and> t2 < t3
        \<and> r_id r1 \<noteq> r_id r3 \<and> r_id r2 \<noteq> r_id r3
        \<and> mset batch = {#r1, r2, r3#}
        \<and> (\<forall>r\<in>set db. r_createdAt r \<le> Some t3)
        \<longrightarrow> get_max_createdAt (upsert_transactions batch db) = Some t3"
  proof (intro impI, elim conjE)
    assume c: "r_createdAt r1 = Some t1" "r_createdAt r2 = Some t2" "r_createdAt r3 = Some t3"
      and lt: "t1 < t2" "t2 < t3"
      and ids: "r_id r1 \<noteq> r_id r3" "r_id r2 \<noteq> r_id r3"
      and perm: "mset batch = {#r1, r2, r3#}"
      and old: "\<forall>r\<in>set db. r_createdAt r \<le> Some t3"
    let ?db = "fold insert_or_replace batch db"
    have "set batch = set_mset (mset batch)"
      by simp
    also have "\<dots> = {r1, r2, r3}"
      unfolding perm by simp
    finally have sb: "set batch = {r1, r2, r3}" .
    have "\<forall>r\<in>set batch. r_id r = r_id r3 \<longrightarrow> r_id r3 = None \<or> r = r3"
      unfolding sb using ids by simp
    moreover have "r3 \<in> set batch"
      unfolding sb by simp
    ultimately have "r3 \<in> set ?db"
      by (rule fold_ior_new [rotated])
    then have "r_createdAt r3 \<in> r_createdAt ` set ?db"
      by (rule imageI)
    then have mem: "Some t3 \<in> set (map r_createdAt ?db)"
      by (simp add: c(3))
    have upper: "k \<le> t3" if "Some k \<in> set (map r_createdAt ?db)" for k
    proof -
      from that obtain r where r: "r \<in> set ?db" "r_createdAt r = Some k"
        by auto
      have "r \<in> set batch \<union> set db"
        using r(1) fold_ior_set_subset by blast
      then consider "r = r1" | "r = r2" | "r = r3" | "r \<in> set db"
        unfolding sb by blast
      then show ?thesis
      proof cases
        case 1
        then show ?thesis using r(2) c(1) lt by simp
      next
        case 2
        then show ?thesis using r(2) c(2) lt by simp
      next
        case 3
        then show ?thesis using r(2) c(3) by simp
      next
        case 4
        then have "r_createdAt r \<le> Some t3"
          using old by blast
        then show ?thesis
          by (simp add: r(2))
      qed
    qed
    show "get_max_createdAt (upsert_transactions batch db) = Some t3"
      unfolding get_max_createdAt_def upsert_transactions_fold
      by (rule sql_max_eqI [OF mem upper])
  qed
  show ?thesis
    by (rule conjI [OF none conjI [OF empty conjI [OF some three]]])
qed

theorem watermark_max_witness:
  "get_max_createdAt
     (upsert_transactions
        [example_row ''t2'' (Some ''2024-01-20T08:00:00Z''),
         example_row ''t3'' (Some ''2024-02-03T09:30:00Z''),
         example_row ''t1'' (Some ''2024-01-05T10:00:00Z'')] [])
   = Some ''2024-02-03T09:30:00Z''
   \<and> ''2024-01-05T10:00:00Z'' < ''2024-01-20T08:00:00Z''
   \<and> ''2024-01-20T08:00:00Z'' < ''2024-02-03T09:30:00Z''"
proof -
  let ?r1 = "example_row ''t1'' (Some ''2024-01-05T10:00:00Z'')"
  let ?r2 = "example_row ''t2'' (Some ''2024-01-20T08:00:00Z'')"
  let ?r3 = "example_row ''t3'' (Some ''2024-02-03T09:30:00Z'')"
  have c: "r_createdAt ?r1 = Some ''2024-01-05T10:00:00Z''"
    "r_createdAt ?r2 = Some ''2024-01-20T08:00:00Z''"
    "r_createdAt ?r3 = Some ''2024-02-03T09:30:00Z''"
    by (simp_all add: example_row_def)
  have lt: "''2024-01-05T10:00:00Z'' < ''2024-01-20T08:00:00Z''"
    "''2024-01-20T08:00:00Z'' < ''2024-02-03T09:30:00Z''"
    by simp_all
  have ids: "r_id ?r1 \<noteq> r_id ?r3" "r_id ?r2 \<noteq> r_id ?r3"
    by (simp_all add: example_row_def)
  have perm: "mset [?r2, ?r3, ?r1] = {#?r1, ?r2, ?r3#}"
    by (simp add: add_mset_commute)
  have old: "\<forall>r\<in>set []. r_createdAt r \<le> Some ''2024-02-03T09:30:00Z''"
    by simp
  from watermark_max [where db = "[]" and batch = "[?r2, ?r3, ?r1]" and ?r1.0 = ?r1
      and ?r2.0 = ?r2 and ?r3.0 = ?r3 and ?t1.0 = "''2024-01-05T10:00:00Z''"
      and ?t2.0 = "''2024-01-20T08:00:00Z''" and ?t3.0 = "''2024-02-03T09:30:00Z''"]
  have "get_max_createdAt (upsert_transactions [?r2, ?r3, ?r1] []) = Some ''2024-02-03T09:30:00Z''"
    using c lt ids perm old by blast
  then show ?thesis
    using lt by blast
qed

lemma of_digit_char: "a < 10 \<Longrightarrow> of_char (digit_char a) = (48 + a :: nat)"
  by (simp add: digit_char_def)

lemma digit_char_less: "a < 10 \<Longrightarrow> b < 10 \<Longrightarrow> digit_char a < digit_char b \<longleftrightarrow> a < b"
  unfolding less_char_def by (simp only: of_digit_char) simp

lemma digit_char_eq: "a < 10 \<Longrightarrow> b < 10 \<Longrightarrow> digit_char a = digit_char b \<longleftrightarrow> a = b"
proof
  assume ab: "a < 10" "b < 10" and e: "digit_char a = digit_char b"
  have "(of_char (digit_char a) :: nat) = of_char (digit_char b)"
    using e by simp
  then show "a = b"
    using ab by (simp add: of_digit_char)
qed simp

lemma digit_char_0: "CHR ''0'' = digit_char 0"
  by code_simp

lemma replicate_3: "replicate 3 x = [x, x, x]"
  by (simp add: numeral_3_eq_3)

lemma replicate_2: "replicate 2 x = [x, x]"
  by (simp add: numeral_2_eq_2)

lemma digits_1: "n < 10 \<Longrightarrow> digits n = [digit_char n]"
  by (subst digits.simps) simp

lemma digits_2: "10 \<le> n \<Longrightarrow> n < 100 \<Longrightarrow> digits n = [digit_char (n div 10), digit_char (n mod 10)]"
  by (subst digits.simps) (simp add: digits_1)

lemma digits_3:
  "100 \<le> n \<Longrightarrow> n < 1000 \<Longrightarrow>
   digits n = [digit_char (n div 100), digit_char (n div 10 mod 10), digit_char (n mod 10)]"
proof -
  assume n: "100 \<le> n" "n < 1000"
  have "10 \<le> n div 10" "n div 10 < 100"
    using n by simp_all
  then have "digits (n div 10) = [digit_char (n div 10 div 10), digit_char (n div 10 mod 10)]"
    by (rule digits_2)
  moreover have "n div 10 div 10 = n div 100"
    by (simp add: div_mult2_eq [symmetric])
  ultimately show ?thesis
    using n by (subst digits.simps) simp
qed

lemma digits_4:
  "1000 \<le> n \<Longrightarrow> n < 10000 \<Longrightarrow>
   digits n = [digit_char (n div 1000), digit_char (n div 100 mod 10),
               digit_char (n div 10 mod 10), digit_char (n mod 10)]"
proof -
  assume n: "1000 \<le> n" "n < 10000"
  have "100 \<le> n div 10" "n div 10 < 1000"
    using n by simp_all
  then have "digits (n div 10)
      = [digit_char (n div 10 div 100), digit_char (n div 10 div 10 mod 10), digit_char (n div 10 mod 10)]"
    by (rule digits_3)
  moreover have "n div 10 div 100 = n div 1000" "n div 10 div 10 = n div 100"
    by (simp_all add: div_mult2_eq [symmetric])
  ultimately show ?thesis
    using n by (subst digits.simps) simp
qed

lemma fmt_2: "m < 100 \<Longrightarrow> fmt_0d 2 (int m) = [digit_char (m div 10), digit_char (m mod 10)]"
proof (cases "m < 10")
  case True
  then show ?thesis
    by (simp add: fmt_0d_def zfill_def digits_1 digit_char_0)
next
  case False
  assume "m < 100"
  with False show ?thesis
    by (simp add: fmt_0d_def zfill_def digits_2)
qed

lemma fmt_4:
  "y < 10000 \<Longrightarrow>
   fmt_0d 4 (int y) = [digit_char (y div 1000), digit_char (y div 100 mod 10),
                       digit_char (y div 10 mod 10), digit_char (y mod 10)]"
proof -
  assume y: "y < 10000"
  consider "y < 10" | "10 \<le> y" "y < 100" | "100 \<le> y" "y < 1000" | "1000 \<le> y"
    by linarith
  then show ?thesis
  proof cases
    case 1
    then show ?thesis
      by (simp add: fmt_0d_def zfill_def digits_1 digit_char_0 replicate_3)
  next
    case 2
    then show ?thesis
      by (simp add: fmt_0d_def zfill_def digits_2 digit_char_0 replicate_2)
  next
    case 3
    then show ?thesis
      by (simp add: fmt_0d_def zfill_def digits_3 digit_char_0)
  next
    case 4
    then show ?thesis
      using y by (simp add: fmt_0d_def zfill_def digits_4)
  qed
qed

lemma less_append_same_length:
  "length a = length b \<Longrightarrow> a @ x < b @ y \<longleftrightarrow> a < b \<or> a = b \<and> x < y"
  for a b x y :: string
  by (induction a b rule: list_induct2) auto

lemma le_append_same_length:
  "length a = length b \<Longrightarrow> a @ x \<le> b @ y \<longleftrightarrow> a < b \<or> a = b \<and> x \<le> y"
  for a b x y :: string
  by (induction a b rule: list_induct2) auto

lemma lex_step_10:
  "x < 10 \<Longrightarrow> x' < 10 \<Longrightarrow> (a < a' \<or> a = a' \<and> x < x') \<longleftrightarrow> 10 * a + x < 10 * a' + (x'::nat)"
  by arith

lemma lex_step_100:
  "x < 100 \<Longrightarrow> x' < 100 \<Longrightarrow> (a < a' \<or> a = a' \<and> x < x') \<longleftrightarrow> 100 * a + x < 100 * a' + (x'::nat)"
  by arith

lemma lex_step_1000:
  "x < 1000 \<Longrightarrow> x' < 1000 \<Longrightarrow> (a < a' \<or> a = a' \<and> x < x') \<longleftrightarrow> 1000 * a + x < 1000 * a' + (x'::nat)"
  by arith

lemma dec4:
  "(y::nat) = 1000 * (y div 1000) + (100 * (y div 100 mod 10) + (10 * (y div 10 mod 10) + y mod 10))"
proof -
  have 1: "y = 10 * (y div 10) + y mod 10"
    by simp
  have "y div 10 = 10 * (y div 10 div 10) + y div 10 mod 10"
    by simp
  then have 2: "y div 10 = 10 * (y div 100) + y div 10 mod 10"
    by (simp add: div_mult2_eq [symmetric])
  have "y div 100 = 10 * (y div 100 div 10) + y div 100 mod 10"
    by simp
  then have 3: "y div 100 = 10 * (y div 1000) + y div 100 mod 10"
    by (simp add: div_mult2_eq [symmetric])
  show ?thesis
    using 1 2 3 by linarith
qed

lemma fmt_2_less:
  assumes "m < 100" and "m' < 100"
  shows "fmt_0d 2 (int m) < fmt_0d 2 (int m') \<longleftrightarrow> m < m'"
proof -
  have r: "m div 10 < 10" "m mod 10 < 10" "m' div 10 < 10" "m' mod 10 < 10"
    using assms by simp_all
  have "fmt_0d 2 (int m) < fmt_0d 2 (int m')
      \<longleftrightarrow> m div 10 < m' div 10 \<or> m div 10 = m' div 10 \<and> m mod 10 < m' mod 10"
    using r by (simp add: fmt_2 assms digit_char_less digit_char_eq)
  also have "\<dots> \<longleftrightarrow> 10 * (m div 10) + m mod 10 < 10 * (m' div 10) + m' mod 10"
    using r(2,4) by (rule lex_step_10)
  also have "\<dots> \<longleftrightarrow> m < m'"
    by simp
  finally show ?thesis .
qed

lemma fmt_2_eq:
  assumes "m < 100" and "m' < 100"
  shows "fmt_0d 2 (int m) = fmt_0d 2 (int m') \<longleftrightarrow> m = m'"
proof
  assume "fmt_0d 2 (int m) = fmt_0d 2 (int m')"
  then have "\<not> fmt_0d 2 (int m) < fmt_0d 2 (int m')" "\<not> fmt_0d 2 (int m') < fmt_0d 2 (int m)"
    by simp_all
  then have "\<not> m < m'" "\<not> m' < m"
    using assms by (simp_all add: fmt_2_less)
  then show "m = m'"
    by simp
qed simp

lemma fmt_4_less:
  assumes "y < 10000" and "y' < 10000"
  shows "fmt_0d 4 (int y) < fmt_0d 4 (int y') \<longleftrightarrow> y < y'"
proof -
  define a b c d where "a = y div 1000" and "b = y div 100 mod 10" and "c = y div 10 mod 10"
    and "d = y mod 10"
  define a' b' c' d' where "a' = y' div 1000" and "b' = y' div 100 mod 10"
    and "c' = y' div 10 mod 10" and "d' = y' mod 10"
  have r: "a < 10" "b < 10" "c < 10" "d < 10" "a' < 10" "b' < 10" "c' < 10" "d' < 10"
    using assms by (simp_all add: a_def b_def c_def d_def a'_def b'_def c'_def d'_def)
  have v: "y = 1000 * a + (100 * b + (10 * c + d))"
    unfolding a_def b_def c_def d_def by (rule dec4)
  have v': "y' = 1000 * a' + (100 * b' + (10 * c' + d'))"
    unfolding a'_def b'_def c'_def d'_def by (rule dec4)
  have f: "fmt_0d 4 (int y) = [digit_char a, digit_char b, digit_char c, digit_char d]"
    "fmt_0d 4 (int y') = [digit_char a', digit_char b', digit_char c', digit_char d']"
    using assms by (simp_all add: fmt_4 a_def b_def c_def d_def a'_def b'_def c'_def d'_def)
  have s2: "10 * c + d < 100" "10 * c' + d' < 100"
    using r by simp_all
  have s3: "100 * b + (10 * c + d) < 1000" "100 * b' + (10 * c' + d') < 1000"
    using r by simp_all
  have "[digit_char a, digit_char b, digit_char c, digit_char d]
        < [digit_char a', digit_char b', digit_char c', digit_char d']
      \<longleftrightarrow> a < a' \<or> a = a' \<and> (b < b' \<or> b = b' \<and> (c < c' \<or> c = c' \<and> d < d'))"
    using r by (simp add: digit_char_less digit_char_eq)
  also have "\<dots> \<longleftrightarrow> a < a' \<or> a = a' \<and> (b < b' \<or> b = b' \<and> 10 * c + d < 10 * c' + d')"
    by (simp only: lex_step_10 [OF r(4) r(8)])
  also have "\<dots> \<longleftrightarrow> a < a' \<or> a = a' \<and> 100 * b + (10 * c + d) < 100 * b' + (10 * c' + d')"
    by (simp only: lex_step_100 [OF s2])
  also have "\<dots> \<longleftrightarrow> 1000 * a + (100 * b + (10 * c + d)) < 1000 * a' + (100 * b' + (10 * c' + d'))"
    by (rule lex_step_1000 [OF s3])
  finally show ?thesis
    unfolding f v [symmetric] v' [symmetric] .
qed

lemma fmt_4_eq:
  assumes "y < 10000" and "y' < 10000"
  shows "fmt_0d 4 (int y) = fmt_0d 4 (int y') \<longleftrightarrow> y = y'"
proof
  assume "fmt_0d 4 (int y) = fmt_0d 4 (int y')"
  then have "\<not> fmt_0d 4 (int y) < fmt_0d 4 (int y')" "\<not> fmt_0d 4 (int y') < fmt_0d 4 (int y)"
    by simp_all
  then have "\<not> y < y'" "\<not> y' < y"
    using assms by (simp_all add: fmt_4_less)
  then show "y = y'"
    by simp
qed simp

lemma length_fmt: "m < 100 \<Longrightarrow> length (fmt_0d 2 (int m)) = 2" "y < 10000 \<Longrightarrow> length (fmt_0d 4 (int y)) = 4"
  by (simp_all add: fmt_2 fmt_4)

lemma timestamp_less:
  assumes "y < 10000" "y' < 10000" "m < 100" "m' < 100"
  shows "timestamp_text y m r < timestamp_text y' m' r'
      \<longleftrightarrow> y < y' \<or> y = y' \<and> (m < m' \<or> m = m' \<and> r < r')"
proof -
  have l4: "length (fmt_0d 4 (int y)) = length (fmt_0d 4 (int y'))"
    using assms by (simp add: length_fmt)
  have l2: "length (fmt_0d 2 (int m)) = length (fmt_0d 2 (int m'))"
    using assms by (simp add: length_fmt)
  show ?thesis
    unfolding timestamp_text_def less_append_same_length [OF l4]
    using assms
    by (simp add: less_append_same_length [OF l2] fmt_4_less fmt_4_eq fmt_2_less fmt_2_eq)
qed

lemma timestamp_le:
  assumes "y < 10000" "y' < 10000" "m < 100" "m' < 100"
  shows "timestamp_text y m r \<le> timestamp_text y' m' r'
      \<longleftrightarrow> y < y' \<or> y = y' \<and> (m < m' \<or> m = m' \<and> r \<le> r')"
proof -
  have l4: "length (fmt_0d 4 (int y)) = length (fmt_0d 4 (int y'))"
    using assms by (simp add: length_fmt)
  have l2: "length (fmt_0d 2 (int m)) = length (fmt_0d 2 (int m'))"
    using assms by (simp add: length_fmt)
  show ?thesis
    unfolding timestamp_text_def le_append_same_length [OF l4]
    using assms
    by (simp add: le_append_same_length [OF l2] fmt_4_less fmt_4_eq fmt_2_less fmt_2_eq)
qed

lemma month_start_timestamp:
  "month_start (int y) (int m) = timestamp_text y m ''01T00:00:00+00:00''"
  by (simp add: month_start_def timestamp_text_def)

lemma month_window:
  assumes "y < 9999" and "1 \<le> m" and "m \<le> 12" and "y' < 10000" and "1 \<le> m'" and "m' \<le> 12"
    and "''01T00:00:00+00:00'' \<le> rest"
  shows "created_between (month_start (int y) (int m))
           (month_start (fst (next_month (int y) (int m))) (snd (next_month (int y) (int m))))
           (r\<lparr>r_createdAt := Some (timestamp_text y' m' rest)\<rparr>)
         \<longleftrightarrow> y' = y \<and> m' = m"
proof -
  let ?r0 = "''01T00:00:00+00:00''"
  have nr: "\<not> rest < ?r0"
    using assms(7) by (simp add: not_less)
  have nx: "month_start (fst (next_month (int y) (int m))) (snd (next_month (int y) (int m)))
      = (if m = 12 then timestamp_text (y + 1) 1 ?r0 else timestamp_text y (m + 1) ?r0)"
  proof (cases "m = 12")
    case True
    then have "next_month (int y) (int m) = (int y + 1, 1)"
      by (simp add: next_month_def)
    then have "month_start (fst (next_month (int y) (int m))) (snd (next_month (int y) (int m)))
        = month_start (int y + 1) 1"
      by simp
    also have "\<dots> = month_start (int (y + 1)) (int 1)"
      by (rule arg_cong2 [where f = month_start]) simp_all
    also have "\<dots> = timestamp_text (y + 1) 1 ?r0"
      by (rule month_start_timestamp)
    finally show ?thesis
      using True by simp
  next
    case False
    then have "next_month (int y) (int m) = (int y, int m + 1)"
      by (simp add: next_month_def)
    then have "month_start (fst (next_month (int y) (int m))) (snd (next_month (int y) (int m)))
        = month_start (int y) (int m + 1)"
      by simp
    also have "\<dots> = month_start (int y) (int (m + 1))"
      by (rule arg_cong2 [where f = month_start]) simp_all
    also have "\<dots> = timestamp_text y (m + 1) ?r0"
      by (rule month_start_timestamp)
    finally show ?thesis
      using False by simp
  qed
  have b: "y < 10000" "y + 1 < 10000" "m < 100" "m' < 100" "m + 1 < 100" "(1::nat) < 100"
    using assms by simp_all
  have lo: "timestamp_text y m ?r0 \<le> timestamp_text y' m' rest
      \<longleftrightarrow> y < y' \<or> y = y' \<and> (m < m' \<or> m = m' \<and> ?r0 \<le> rest)"
    using b(1) assms(4) b(3) b(4) by (rule timestamp_le)
  have hi12: "timestamp_text y' m' rest < timestamp_text (y + 1) 1 ?r0
      \<longleftrightarrow> y' < y + 1 \<or> y' = y + 1 \<and> (m' < 1 \<or> m' = 1 \<and> rest < ?r0)"
    using assms(4) b(2) b(4) b(6) by (rule timestamp_less)
  have hi: "timestamp_text y' m' rest < timestamp_text y (m + 1) ?r0
      \<longleftrightarrow> y' < y \<or> y' = y \<and> (m' < m + 1 \<or> m' = m + 1 \<and> rest < ?r0)"
    using assms(4) b(1) b(4) b(5) by (rule timestamp_less)
  have cb: "created_between s e (r\<lparr>r_createdAt := Some c\<rparr>) \<longleftrightarrow> s \<le> c \<and> c < e" for s e c
    by (simp add: created_between_def)
  show ?thesis
  proof (cases "m = 12")
    case True
    have nx12: "month_start (fst (next_month (int y) (int m))) (snd (next_month (int y) (int m)))
        = timestamp_text (y + 1) 1 ?r0"
      using nx True by simp
    have "created_between (month_start (int y) (int m))
           (month_start (fst (next_month (int y) (int m))) (snd (next_month (int y) (int m))))
           (r\<lparr>r_createdAt := Some (timestamp_text y' m' rest)\<rparr>)
        \<longleftrightarrow> (y < y' \<or> y = y' \<and> (m < m' \<or> m = m' \<and> ?r0 \<le> rest))
          \<and> (y' < y + 1 \<or> y' = y + 1 \<and> (m' < 1 \<or> m' = 1 \<and> rest < ?r0))"
      unfolding cb nx12 month_start_timestamp lo hi12 ..
    also have "\<dots> \<longleftrightarrow> y' = y \<and> m' = m"
      using nr assms(5,6,7) True by auto
    finally show ?thesis .
  next
    case False
    have nxo: "month_start (fst (next_month (int y) (int m))) (snd (next_month (int y) (int m)))
        = timestamp_text y (m + 1) ?r0"
      using nx False by simp
    have "created_between (month_start (int y) (int m))
           (month_start (fst (next_month (int y) (int m))) (snd (next_month (int y) (int m))))
           (r\<lparr>r_createdAt := Some (timestamp_text y' m' rest)\<rparr>)
        \<longleftrightarrow> (y < y' \<or> y = y' \<and> (m < m' \<or> m = m' \<and> ?r0 \<le> rest))
          \<and> (y' < y \<or> y' = y \<and> (m' < m + 1 \<or> m' = m + 1 \<and> rest < ?r0))"
      unfolding cb nxo month_start_timestamp lo hi ..
    also have "\<dots> \<longleftrightarrow> y' = y \<and> m' = m"
      using nr assms(7) by auto
    finally show ?thesis .
  qed
qed

text \<open>
  C9. For every year and month, the month query returns exactly the stored rows whose
  \<^verbatim>\<open>createdAt\<close> lies in the half-open interval from the first instant of the month to
  the first instant of the next month (January of the next year after December), each as
  often as the store holds it, in ascending order of \<^verbatim>\<open>createdAt\<close>. The bounds are the
  texts \<^verbatim>\<open>YYYY-MM-01T00:00:00+00:00\<close> and the comparison is the store's comparison of text.
  On timestamps written in that layout the interval is the calendar month: a stored row
  stamped with year \<open>y'\<close> and month \<open>m'\<close> is returned for year \<open>y\<close> and month \<open>m\<close> exactly
  when \<open>y' = y\<close> and \<open>m' = m\<close>.
\<close>

theorem month_query:
  "sorted (map r_createdAt (get_cached_transactions_for_month db year month))
   \<and> mset (get_cached_transactions_for_month db year month)
       = filter_mset
           (\<lambda>r. \<exists>c. r_createdAt r = Some c
                \<and> month_start year month \<le> c
                \<and> c < month_start (if month = 12 then year + 1 else year)
                                  (if month = 12 then 1 else month + 1))
           (mset db)
   \<and> (r \<in> set db \<and> r_createdAt r = Some (timestamp_text y' m' rest)
        \<and> ''01T00:00:00+00:00'' \<le> rest
        \<and> y < 9999 \<and> y' < 10000 \<and> 1 \<le> m \<and> m \<le> 12 \<and> 1 \<le> m' \<and> m' \<le> 12
      \<longrightarrow> (r \<in> set (get_cached_transactions_for_month db (int y) (int m))
            \<longleftrightarrow> y' = y \<and> m' = m))"
proof -
  have cb: "created_between s e = (\<lambda>r. \<exists>c. r_createdAt r = Some c \<and> s \<le> c \<and> c < e)" for s e
    by (rule ext) (simp add: created_between_def split: option.splits)
  have listed: "sorted (map r_createdAt (get_cached_transactions_for_month db year month))
    \<and> mset (get_cached_transactions_for_month db year month)
       = filter_mset
           (\<lambda>r. \<exists>c. r_createdAt r = Some c
                \<and> month_start year month \<le> c
                \<and> c < month_start (if month = 12 then year + 1 else year)
                                  (if month = 12 then 1 else month + 1))
           (mset db)"
    using cb by (simp add: get_cached_transactions_for_month_def next_month_def Let_def)
  have calendar: "r \<in> set (get_cached_transactions_for_month db (int y) (int m))
      \<longleftrightarrow> y' = y \<and> m' = m"
    if r: "r \<in> set db" "r_createdAt r = Some (timestamp_text y' m' rest)"
      and b: "''01T00:00:00+00:00'' \<le> rest" "y < 9999" "y' < 10000" "1 \<le> m" "m \<le> 12"
        "1 \<le> m'" "m' \<le> 12"
  proof -
    have same: "r\<lparr>r_createdAt := Some (timestamp_text y' m' rest)\<rparr> = r"
      using r(2) by simp
    have "r \<in> set (get_cached_transactions_for_month db (int y) (int m))
        \<longleftrightarrow> created_between (month_start (int y) (int m))
             (month_start (fst (next_month (int y) (int m))) (snd (next_month (int y) (int m)))) r"
      using r(1) by (simp add: get_cached_transactions_for_month_def Let_def case_prod_beta)
    also have "\<dots> \<longleftrightarrow> y' = y \<and> m' = m"
      using month_window [OF b(2) b(4) b(5) b(3) b(6) b(7) b(1), of r] unfolding same .
    finally show ?thesis .
  qed
  show ?thesis
    using listed calendar by blast
qed

section \<open>Properties of the paginated fetch\<close>

lemma after_cursor_split:
  assumes "distinct (map tx_key (pre @ x # rest))" and "tx_key x = Some c"
  shows "after_cursor (Some c) (pre @ x # rest) = rest"
proof -
  have out: "Some c \<notin> tx_key ` set pre"
    using assms by auto
  have "tx_key t \<noteq> Some c" if "t \<in> set pre" for t
  proof
    assume "tx_key t = Some c"
    moreover have "tx_key t \<in> tx_key ` set pre"
      using that by (rule imageI)
    ultimately show False
      using out by simp
  qed
  then have "dropWhile (\<lambda>t. tx_key t \<noteq> Some c) (pre @ x # rest)
      = dropWhile (\<lambda>t. tx_key t \<noteq> Some c) (x # rest)"
    by (rule dropWhile_append2)
  then show ?thesis
    using assms(2) by (simp add: after_cursor_def)
qed

lemma truthy_sent_bound: "(if truthy c then c else None) = sent_bound c"
  by (simp add: sent_bound_def)

lemma pages_up_to_bound_Nil: "pages_up_to_bound n bound [] = []"
  by (subst pages_up_to_bound.simps) simp

lemma crossed_window:
  "dict_get (createdAt t) \<noteq> None \<Longrightarrow> crossed aft t = Inr (\<not> in_window (sent_bound aft) t)"
  by (cases "createdAt t")
    (auto simp: in_window_def sent_bound_def crossed_def truthy_def dict_get_def
      split: option.splits if_splits)

lemma crossed_in_window:
  "in_window (sent_bound aft) t \<Longrightarrow> crossed aft t = Inr (\<not> in_window (sent_bound aft) t)"
  by (cases "createdAt t")
    (auto simp: in_window_def sent_bound_def crossed_def truthy_def dict_get_def
      split: option.splits if_splits)

lemma fetch_loop_walk:
  assumes pages: "\<And>b. http_get \<lparr> p_limit = 100, p_before = b, p_from = sent_bound aft \<rparr>
      = \<lparr> status_code = 200, body_transactions = take n (after_cursor b ys) \<rparr>"
    and n: "0 < n"
    and d: "distinct (map tx_key ys)"
    and ids: "\<forall>t\<in>set ys. truthy (tx_key t)"
    and cr: "\<forall>t\<in>set ys. crossed aft t = Inr (\<not> in_window (sent_bound aft) t)"
  shows "ys = pre @ rest \<Longrightarrow> cursor = (if pre = [] then None else tx_key (last pre)) \<Longrightarrow>
     fetch_loop http_get acc aft cursor collected
       = Some (Inr (collected @ map (\<lambda>tx. tx\<lparr>account_id := Val acc\<rparr>)
                      (pages_up_to_bound n (sent_bound aft) rest)))"
proof (induction "length rest" arbitrary: pre rest cursor collected rule: less_induct)
  case less
  let ?tag = "\<lambda>tx. tx\<lparr>account_id := Val acc\<rparr>"
  have ac: "after_cursor (if truthy cursor then cursor else None) ys = rest"
  proof (cases "pre = []")
    case True
    then show ?thesis
      using less.prems by (simp add: truthy_def after_cursor_def)
  next
    case False
    then have "last pre \<in> set ys"
      using less.prems(1) by simp
    then have "truthy (tx_key (last pre))"
      using ids by blast
    then obtain c where c: "tx_key (last pre) = Some c" "truthy (Some c)"
      by (cases "tx_key (last pre)") (simp_all add: truthy_def)
    have ys: "ys = butlast pre @ last pre # rest"
      using less.prems(1) False by simp
    have "after_cursor (Some c) (butlast pre @ last pre # rest) = rest"
      using d c(1) unfolding ys by (rule after_cursor_split)
    then show ?thesis
      using False less.prems(2) c ys by simp
  qed
  have resp: "http_get \<lparr> p_limit = 100, p_before = (if truthy cursor then cursor else None),
        p_from = (if truthy aft then aft else None) \<rparr>
      = \<lparr> status_code = 200, body_transactions = take n rest \<rparr>"
    unfolding truthy_sent_bound [of aft] pages ac ..
  show ?case
  proof (cases "rest = []")
    case True
    have "fetch_loop http_get acc aft cursor collected = Some (Inr collected)"
      by (subst fetch_loop.simps) (simp add: resp Let_def True)
    then show ?thesis
      using True by (simp add: pages_up_to_bound_Nil)
  next
    case False
    let ?batch = "take n rest"
    let ?rest' = "drop n rest"
    let ?collected' = "collected @ map ?tag ?batch"
    have batch: "?batch \<noteq> []"
      using False n by simp
    have lastmem: "last ?batch \<in> set ys"
      using batch less.prems(1) by (metis Un_iff in_set_takeD last_in_set set_append)
    have b: "crossed aft (last ?batch) = Inr (\<not> in_window (sent_bound aft) (last ?batch))"
      using cr lastmem by blast
    show ?thesis
    proof (cases "in_window (sent_bound aft) (last ?batch)")
      case False
      have "fetch_loop http_get acc aft cursor collected = Some (Inr ?collected')"
        using n \<open>rest \<noteq> []\<close> by (subst fetch_loop.simps) (simp add: resp Let_def b False)
      moreover have "pages_up_to_bound n (sent_bound aft) rest = ?batch"
        using n \<open>rest \<noteq> []\<close> False by (subst pages_up_to_bound.simps) simp
      ultimately show ?thesis
        by simp
    next
      case True
      have tr: "truthy (tx_key (last ?batch))"
        using ids lastmem by blast
      have step: "fetch_loop http_get acc aft cursor collected
          = fetch_loop http_get acc aft (tx_key (last ?batch)) ?collected'"
        using n \<open>rest \<noteq> []\<close> by (subst fetch_loop.simps) (simp add: resp Let_def b True tr)
      have shorter: "length ?rest' < length rest"
        using \<open>rest \<noteq> []\<close> n by simp
      have ys': "ys = (pre @ ?batch) @ ?rest'"
        using less.prems(1) by simp
      have cur': "tx_key (last ?batch)
          = (if pre @ ?batch = [] then None else tx_key (last (pre @ ?batch)))"
        using batch by simp
      have unfold: "pages_up_to_bound n (sent_bound aft) rest
          = ?batch @ pages_up_to_bound n (sent_bound aft) ?rest'"
        using n \<open>rest \<noteq> []\<close> True by (subst pages_up_to_bound.simps) simp
      show ?thesis
        unfolding step less.hyps [OF shorter ys' cur', of ?collected'] unfold by simp
    qed
  qed
qed

lemma tx_key_account_id [simp]: "tx_key (tx\<lparr>account_id := a\<rparr>) = tx_key tx"
  by (simp add: tx_key_def)

lemma map_tx_key_tagged:
  "map tx_key (map (\<lambda>tx. tx\<lparr>account_id := a\<rparr>) txs) = map tx_key txs"
  by simp

lemma crossed_not_in_window:
  "crossed aft t = Inr True \<Longrightarrow> dict_get (createdAt u) \<le> dict_get (createdAt t) \<Longrightarrow>
   \<not> in_window (sent_bound aft) u"
  by (cases "createdAt t"; cases "createdAt u")
    (auto simp: in_window_def sent_bound_def crossed_def truthy_def dict_get_def
      split: option.splits if_splits)

lemma serve_plain_page:
  "serve False page_size txs \<lparr> p_limit = 100, p_before = b, p_from = f \<rparr>
   = \<lparr> status_code = 200, body_transactions = take (min 100 page_size) (after_cursor b txs) \<rparr>"
  by (simp add: serve_def)

lemma serve_bound_page:
  "serve True page_size txs \<lparr> p_limit = 100, p_before = b, p_from = f \<rparr>
   = \<lparr> status_code = 200,
       body_transactions = take (min 100 page_size) (after_cursor b (filter (in_window f) txs)) \<rparr>"
  by (simp add: serve_def)

lemma pages_up_to_bound_prefix:
  "0 < n \<Longrightarrow> \<exists>k\<le>length xs. pages_up_to_bound n bound xs = take k xs
      \<and> (k = length xs \<or> (0 < k \<and> \<not> in_window bound (xs ! (k - 1))))"
proof (induction "length xs" arbitrary: xs rule: less_induct)
  case less
  show ?case
  proof (cases "xs = []")
    case True
    then show ?thesis
      by (simp add: pages_up_to_bound_Nil)
  next
    case False
    let ?batch = "take n xs"
    let ?rest = "drop n xs"
    have batch: "?batch \<noteq> []"
      using False less.prems by simp
    have lastnth: "last ?batch = xs ! (length ?batch - 1)"
      using batch less.prems by (simp add: last_conv_nth)
    show ?thesis
    proof (cases "in_window bound (last ?batch)")
      case nw: False
      have "pages_up_to_bound n bound xs = take (length ?batch) xs"
        using less.prems False nw by (subst pages_up_to_bound.simps) (simp add: min_def)
      moreover have "0 < length ?batch" "length ?batch \<le> length xs"
        using batch by simp_all
      moreover have "\<not> in_window bound (xs ! (length ?batch - 1))"
        using nw lastnth by simp
      ultimately show ?thesis
        by blast
    next
      case True
      have unfold: "pages_up_to_bound n bound xs = ?batch @ pages_up_to_bound n bound ?rest"
        using less.prems False True by (subst pages_up_to_bound.simps) simp
      have shorter: "length ?rest < length xs"
        using False less.prems by simp
      from less.hyps [OF shorter less.prems] obtain k' where
        k': "k' \<le> length ?rest" "pages_up_to_bound n bound ?rest = take k' ?rest"
          "k' = length ?rest \<or> (0 < k' \<and> \<not> in_window bound (?rest ! (k' - 1)))"
        by blast
      let ?k = "length ?batch + k'"
      have gen: "take (length a + k) (a @ b) = a @ take k b" for a b :: "raw_tx list" and k
        by simp
      have tk: "take ?k xs = ?batch @ take k' ?rest"
        using gen [of ?batch k' ?rest] by (simp only: append_take_drop_id)
      have len: "length ?batch + length ?rest = length xs"
        by (simp only: length_append [symmetric] append_take_drop_id)
      have le: "?k \<le> length xs"
        using k'(1) len by linarith
      have res: "pages_up_to_bound n bound xs = take ?k xs"
        unfolding unfold k'(2) tk ..
      have stopped: "?k = length xs \<or> (0 < ?k \<and> \<not> in_window bound (xs ! (?k - 1)))"
      proof (cases "k' = length ?rest")
        case True
        then have "?k = length xs"
          using len by linarith
        then show ?thesis by simp
      next
        case False
        then have pos: "0 < k'" and c: "\<not> in_window bound (?rest ! (k' - 1))"
          using k'(3) by auto
        have idx: "?k - 1 = length ?batch + (k' - 1)"
          using pos by linarith
        have "(?batch @ ?rest) ! (length ?batch + (k' - 1)) = ?rest ! (k' - 1)"
          by (rule nth_append_length_plus)
        then have "xs ! (length ?batch + (k' - 1)) = ?rest ! (k' - 1)"
          by (simp only: append_take_drop_id)
        then have "\<not> in_window bound (xs ! (?k - 1))"
          using c unfolding idx by simp
        moreover have "0 < ?k"
          using pos by linarith
        ultimately show ?thesis
          by blast
      qed
      show ?thesis
        using le res stopped by blast
    qed
  qed
qed

lemma pages_up_to_bound_all:
  assumes "0 < n" and "\<forall>t\<in>set xs. in_window bound t"
  shows "pages_up_to_bound n bound xs = xs"
proof -
  from pages_up_to_bound_prefix [OF assms(1), of xs bound] obtain k where
    k: "k \<le> length xs" "pages_up_to_bound n bound xs = take k xs"
      "k = length xs \<or> (0 < k \<and> \<not> in_window bound (xs ! (k - 1)))"
    by blast
  have "k = length xs"
  proof (rule ccontr)
    assume "k \<noteq> length xs"
    then have pos: "0 < k" and c: "\<not> in_window bound (xs ! (k - 1))"
      using k(3) by auto
    have "xs ! (k - 1) \<in> set xs"
      using pos k(1) by (intro nth_mem) linarith
    then show False
      using c assms(2) by blast
  qed
  then show ?thesis
    using k(2) by simp
qed

lemma fetch_with_bound:
  assumes "distinct (map tx_key txs)" and "\<forall>t\<in>set txs. truthy (tx_key t)" and "0 < page_size"
  shows "fetch_all_tx_for_account (serve True page_size txs) acct aft
    = Some (Inr (map (\<lambda>tx. tx\<lparr>account_id := Val acct\<rparr>) (filter (in_window (sent_bound aft)) txs)))"
proof -
  let ?ys = "filter (in_window (sent_bound aft)) txs"
  have n: "0 < min 100 page_size"
    using assms(3) by simp
  have d: "distinct (map tx_key ?ys)"
    using assms(1) by (rule distinct_map_filter)
  have ids: "\<forall>t\<in>set ?ys. truthy (tx_key t)"
    using assms(2) by simp
  have cr: "\<forall>t\<in>set ?ys. crossed aft t = Inr (\<not> in_window (sent_bound aft) t)"
    using crossed_in_window by simp
  have start: "?ys = [] @ ?ys" "None = (if ([]::raw_tx list) = [] then None else tx_key (last []))"
    by simp_all
  have "fetch_loop (serve True page_size txs) acct aft None []
      = Some (Inr ([] @ map (\<lambda>tx. tx\<lparr>account_id := Val acct\<rparr>)
          (pages_up_to_bound (min 100 page_size) (sent_bound aft) ?ys)))"
    using serve_bound_page n d ids cr start by (rule fetch_loop_walk)
  moreover have "pages_up_to_bound (min 100 page_size) (sent_bound aft) ?ys = ?ys"
    using n by (rule pages_up_to_bound_all) simp
  ultimately show ?thesis
    by (simp add: fetch_all_tx_for_account_def)
qed

text \<open>
  C2, as stated, fails. An upstream that serves pages newest first and leaves the cut to
  the client sends one page holding a record above and a record below the bound; the fetch
  collects the whole page before it looks at the last record, so it returns the record below
  the bound too.
\<close>

theorem fetch_outside_bound_counterexample:
  "newest_first [example_tx ''t3'' ''2024-03-03T00:00:00Z'', example_tx ''t1'' ''2024-03-01T00:00:00Z'']
   \<and> fetch_all_tx_for_account
        (serve False 100
          [example_tx ''t3'' ''2024-03-03T00:00:00Z'', example_tx ''t1'' ''2024-03-01T00:00:00Z''])
        ''acc1'' (Some ''2024-03-02T00:00:00Z'')
      = Some (Inr [(example_tx ''t3'' ''2024-03-03T00:00:00Z'')\<lparr>account_id := Val ''acc1''\<rparr>,
                   (example_tx ''t1'' ''2024-03-01T00:00:00Z'')\<lparr>account_id := Val ''acc1''\<rparr>])
   \<and> \<not> in_window (Some ''2024-03-02T00:00:00Z'')
        ((example_tx ''t1'' ''2024-03-01T00:00:00Z'')\<lparr>account_id := Val ''acc1''\<rparr>)"
  by (simp add: newest_first_def fetch_all_tx_for_account_def fetch_loop.simps serve_def
      after_cursor_def truthy_def crossed_def Let_def in_window_def dict_get_def tx_key_def
      example_tx_def empty_tx_def)

text \<open>
  C2, amended. Let the upstream hold the account's transactions, with distinct non-empty ids
  and a \<^verbatim>\<open>createdAt\<close> each, and serve them in pages after the \<^verbatim>\<open>before\<close> cursor. The
  fetch returns, every record tagged with the account id and none twice. If the upstream
  applies the \<^verbatim>\<open>from\<close> bound, the result is exactly the transactions with
  \<^verbatim>\<open>createdAt >= after\<close> (all of them when \<^verbatim>\<open>after\<close> is omitted or empty). If the upstream
  ignores the bound, the result is exactly the pages up to and including the first page whose
  last record has \<^verbatim>\<open>createdAt < after\<close>, and all pages when there is no such page. When
  that upstream serves newest first, these pages hold every transaction with
  \<^verbatim>\<open>createdAt >= after\<close>, and every transaction left out is below the bound; the records
  of the last page below the bound are returned as well.
\<close>

theorem paginated_fetch:
  assumes "distinct (map tx_key txs)" and "\<forall>t\<in>set txs. truthy (tx_key t)"
    and "\<forall>t\<in>set txs. dict_get (createdAt t) \<noteq> None" and "0 < page_size"
  shows "fetch_all_tx_for_account (serve True page_size txs) acct after
      = Some (Inr (map (\<lambda>tx. tx\<lparr>account_id := Val acct\<rparr>)
                    (filter (in_window (sent_bound after)) txs)))
    \<and> distinct (map tx_key (map (\<lambda>tx. tx\<lparr>account_id := Val acct\<rparr>)
                    (filter (in_window (sent_bound after)) txs)))
    \<and> fetch_all_tx_for_account (serve False page_size txs) acct after
      = Some (Inr (map (\<lambda>tx. tx\<lparr>account_id := Val acct\<rparr>)
                    (pages_up_to_bound (min 100 page_size) (sent_bound after) txs)))
    \<and> distinct (map tx_key (map (\<lambda>tx. tx\<lparr>account_id := Val acct\<rparr>)
                    (pages_up_to_bound (min 100 page_size) (sent_bound after) txs)))
    \<and> (newest_first txs \<longrightarrow>
        (\<exists>k. pages_up_to_bound (min 100 page_size) (sent_bound after) txs = take k txs
            \<and> (\<forall>t\<in>set txs. in_window (sent_bound after) t \<longrightarrow> t \<in> set (take k txs))
            \<and> (\<forall>t\<in>set (drop k txs). \<not> in_window (sent_bound after) t)))"
proof -
  let ?n = "min 100 page_size"
  let ?b = "sent_bound after"
  have n: "0 < ?n"
    using assms(4) by simp
  have exact: "fetch_all_tx_for_account (serve True page_size txs) acct after
      = Some (Inr (map (\<lambda>tx. tx\<lparr>account_id := Val acct\<rparr>) (filter (in_window ?b) txs)))"
    using assms(1,2,4) by (rule fetch_with_bound)
  have d1: "distinct (map tx_key (map (\<lambda>tx. tx\<lparr>account_id := Val acct\<rparr>)
                    (filter (in_window ?b) txs)))"
    unfolding map_tx_key_tagged using assms(1) by (rule distinct_map_filter)
  have cr: "\<forall>t\<in>set txs. crossed after t = Inr (\<not> in_window ?b t)"
    using assms(3) crossed_window by blast
  have start: "txs = [] @ txs" "None = (if ([]::raw_tx list) = [] then None else tx_key (last []))"
    by simp_all
  have "fetch_loop (serve False page_size txs) acct after None []
      = Some (Inr ([] @ map (\<lambda>tx. tx\<lparr>account_id := Val acct\<rparr>) (pages_up_to_bound ?n ?b txs)))"
    using serve_plain_page n assms(1,2) cr start by (rule fetch_loop_walk)
  then have walk: "fetch_all_tx_for_account (serve False page_size txs) acct after
      = Some (Inr (map (\<lambda>tx. tx\<lparr>account_id := Val acct\<rparr>) (pages_up_to_bound ?n ?b txs)))"
    by (simp add: fetch_all_tx_for_account_def)
  from pages_up_to_bound_prefix [OF n, of txs ?b] obtain k where
    k: "k \<le> length txs" "pages_up_to_bound ?n ?b txs = take k txs"
      "k = length txs \<or> (0 < k \<and> \<not> in_window ?b (txs ! (k - 1)))"
    by blast
  have "distinct (map tx_key (take k txs))"
    using assms(1) by (simp add: take_map [symmetric])
  then have d2: "distinct (map tx_key (map (\<lambda>tx. tx\<lparr>account_id := Val acct\<rparr>)
      (pages_up_to_bound ?n ?b txs)))"
    unfolding map_tx_key_tagged k(2) .
  have sorted_part: "\<exists>k. pages_up_to_bound ?n ?b txs = take k txs
            \<and> (\<forall>t\<in>set txs. in_window ?b t \<longrightarrow> t \<in> set (take k txs))
            \<and> (\<forall>t\<in>set (drop k txs). \<not> in_window ?b t)"
    if nf: "newest_first txs"
  proof -
    have below: "\<not> in_window ?b t" if t: "t \<in> set (drop k txs)" for t
    proof (cases "k = length txs")
      case True
      then show ?thesis using t by simp
    next
      case False
      then have pos: "0 < k" and c: "\<not> in_window ?b (txs ! (k - 1))"
        using k(3) by auto
      have "txs ! (k - 1) \<in> set txs"
        using pos k(1) by (intro nth_mem) linarith
      then have "dict_get (createdAt (txs ! (k - 1))) \<noteq> None"
        using assms(3) by blast
      then have c': "crossed after (txs ! (k - 1)) = Inr True"
        using c by (simp add: crossed_window)
      from t obtain j where j: "j < length (drop k txs)" "t = drop k txs ! j"
        by (metis in_set_conv_nth)
      have jl: "k + j < length txs"
        using j(1) by simp
      have tj: "t = txs ! (k + j)"
        using j k(1) by simp
      let ?cs = "map (\<lambda>t. dict_get (createdAt t)) txs"
      have "sorted (rev ?cs)"
        using nf by (simp add: newest_first_def)
      then have "?cs ! (k + j) \<le> ?cs ! (k - 1)"
        using jl by (intro sorted_rev_nth_mono) simp_all
      then have "dict_get (createdAt t) \<le> dict_get (createdAt (txs ! (k - 1)))"
        using jl tj pos by simp
      with c' show ?thesis
        by (rule crossed_not_in_window)
    qed
    have "set txs = set (take k txs) \<union> set (drop k txs)"
      by (metis append_take_drop_id set_append)
    then have all: "\<forall>t\<in>set txs. in_window ?b t \<longrightarrow> t \<in> set (take k txs)"
      using below by blast
    show ?thesis
      using k(2) all below by blast
  qed
  show ?thesis
    using exact d1 walk d2 sorted_part by blast
qed

theorem paginated_fetch_witness:
  "distinct (map tx_key [example_tx ''t3'' ''2024-03-03T00:00:00Z'',
                         example_tx ''t2'' ''2024-03-02T12:00:00Z'',
                         example_tx ''t1'' ''2024-03-01T00:00:00Z'',
                         example_tx ''t0'' ''2024-02-28T00:00:00Z''])
   \<and> (0::nat) < 1
   \<and> newest_first [example_tx ''t3'' ''2024-03-03T00:00:00Z'',
                    example_tx ''t2'' ''2024-03-02T12:00:00Z'',
                    example_tx ''t1'' ''2024-03-01T00:00:00Z'',
                    example_tx ''t0'' ''2024-02-28T00:00:00Z'']
   \<and> fetch_all_tx_for_account
        (serve True 1 [example_tx ''t3'' ''2024-03-03T00:00:00Z'',
                       example_tx ''t2'' ''2024-03-02T12:00:00Z'',
                       example_tx ''t1'' ''2024-03-01T00:00:00Z'',
                       example_tx ''t0'' ''2024-02-28T00:00:00Z''])
        ''acc1'' (Some ''2024-03-02T00:00:00Z'')
      = Some (Inr [(example_tx ''t3'' ''2024-03-03T00:00:00Z'')\<lparr>account_id := Val ''acc1''\<rparr>,
                   (example_tx ''t2'' ''2024-03-02T12:00:00Z'')\<lparr>account_id := Val ''acc1''\<rparr>])
   \<and> fetch_all_tx_for_account
        (serve False 1 [example_tx ''t3'' ''2024-03-03T00:00:00Z'',
                        example_tx ''t2'' ''2024-03-02T12:00:00Z'',
                        example_tx ''t1'' ''2024-03-01T00:00:00Z'',
                        example_tx ''t0'' ''2024-02-28T00:00:00Z''])
        ''acc1'' (Some ''2024-03-02T00:00:00Z'')
      = Some (Inr [(example_tx ''t3'' ''2024-03-03T00:00:00Z'')\<lparr>account_id := Val ''acc1''\<rparr>,
                   (example_tx ''t2'' ''2024-03-02T12:00:00Z'')\<lparr>account_id := Val ''acc1''\<rparr>,
                   (example_tx ''t1'' ''2024-03-01T00:00:00Z'')\<lparr>account_id := Val ''acc1''\<rparr>])
   \<and> (\<exists>k. pages_up_to_bound (min 100 1) (sent_bound (Some ''2024-03-02T00:00:00Z''))
             [example_tx ''t3'' ''2024-03-03T00:00:00Z'',
              example_tx ''t2'' ''2024-03-02T12:00:00Z'',
              example_tx ''t1'' ''2024-03-01T00:00:00Z'',
              example_tx ''t0'' ''2024-02-28T00:00:00Z'']
          = take k [example_tx ''t3'' ''2024-03-03T00:00:00Z'',
                    example_tx ''t2'' ''2024-03-02T12:00:00Z'',
                    example_tx ''t1'' ''2024-03-01T00:00:00Z'',
                    example_tx ''t0'' ''2024-02-28T00:00:00Z''])"
proof -
  let ?txs = "[example_tx ''t3'' ''2024-03-03T00:00:00Z'', example_tx ''t2'' ''2024-03-02T12:00:00Z'',
               example_tx ''t1'' ''2024-03-01T00:00:00Z'', example_tx ''t0'' ''2024-02-28T00:00:00Z'']"
  have d: "distinct (map tx_key ?txs)"
    by (simp add: tx_key_def example_tx_def dict_get_def)
  have ids: "\<forall>t\<in>set ?txs. truthy (tx_key t)"
    by (simp add: tx_key_def example_tx_def dict_get_def truthy_def)
  have cr: "\<forall>t\<in>set ?txs. dict_get (createdAt t) \<noteq> None"
    by (simp add: example_tx_def dict_get_def)
  have p: "(0::nat) < 1"
    by simp
  have nf: "newest_first ?txs"
    by (simp add: newest_first_def example_tx_def dict_get_def)
  have f: "filter (in_window (sent_bound (Some ''2024-03-02T00:00:00Z''))) ?txs
      = [example_tx ''t3'' ''2024-03-03T00:00:00Z'', example_tx ''t2'' ''2024-03-02T12:00:00Z'']"
    by (simp add: in_window_def sent_bound_def truthy_def example_tx_def dict_get_def)
  have w: "pages_up_to_bound (min 100 1) (sent_bound (Some ''2024-03-02T00:00:00Z'')) ?txs
      = [example_tx ''t3'' ''2024-03-03T00:00:00Z'', example_tx ''t2'' ''2024-03-02T12:00:00Z'',
         example_tx ''t1'' ''2024-03-01T00:00:00Z'']"
    by (simp add: pages_up_to_bound.simps in_window_def sent_bound_def truthy_def example_tx_def
        dict_get_def)
  note T = paginated_fetch [OF d ids cr p, of "''acc1''" "Some ''2024-03-02T00:00:00Z''"]
  have 1: "fetch_all_tx_for_account (serve True 1 ?txs) ''acc1'' (Some ''2024-03-02T00:00:00Z'')
      = Some (Inr [(example_tx ''t3'' ''2024-03-03T00:00:00Z'')\<lparr>account_id := Val ''acc1''\<rparr>,
                   (example_tx ''t2'' ''2024-03-02T12:00:00Z'')\<lparr>account_id := Val ''acc1''\<rparr>])"
    using T unfolding f by simp
  have 2: "fetch_all_tx_for_account (serve False 1 ?txs) ''acc1'' (Some ''2024-03-02T00:00:00Z'')
      = Some (Inr [(example_tx ''t3'' ''2024-03-03T00:00:00Z'')\<lparr>account_id := Val ''acc1''\<rparr>,
                   (example_tx ''t2'' ''2024-03-02T12:00:00Z'')\<lparr>account_id := Val ''acc1''\<rparr>,
                   (example_tx ''t1'' ''2024-03-01T00:00:00Z'')\<lparr>account_id := Val ''acc1''\<rparr>])"
    using T unfolding w by simp
  have 3: "\<exists>k. pages_up_to_bound (min 100 1) (sent_bound (Some ''2024-03-02T00:00:00Z'')) ?txs
      = take k ?txs"
    using T nf by blast
  show ?thesis
    using d p nf 1 2 3 by blast
qed

section \<open>Properties of the synchronization engine\<close>

lemma sync_rows_fold:
  "\<forall>tx\<in>set txs. normalize_tx i tx = Inr (g tx) \<Longrightarrow>
   sync_rows i txs batch db = (None, fold insert_or_replace (batch @ map g txs) db)"
proof (induction txs arbitrary: batch db)
  case Nil
  then show ?case
    by (simp add: upsert_transactions_fold)
next
  case (Cons tx txs)
  have n: "normalize_tx i tx = Inr (g tx)" and rest: "\<forall>tx\<in>set txs. normalize_tx i tx = Inr (g tx)"
    using Cons.prems by simp_all
  show ?case
  proof (cases "length (batch @ [g tx]) \<ge> 500")
    case True
    have "sync_rows i (tx # txs) batch db
        = sync_rows i txs [] (upsert_transactions (batch @ [g tx]) db)"
      using n True by simp
    also have "\<dots> = (None, fold insert_or_replace ([] @ map g txs)
        (upsert_transactions (batch @ [g tx]) db))"
      using rest by (rule Cons.IH)
    finally show ?thesis
      by (simp add: upsert_transactions_fold)
  next
    case False
    have "sync_rows i (tx # txs) batch db = sync_rows i txs (batch @ [g tx]) db"
      using n False by simp
    also have "\<dots> = (None, fold insert_or_replace ((batch @ [g tx]) @ map g txs) db)"
      using rest by (rule Cons.IH)
    finally show ?thesis
      by simp
  qed
qed

lemma unique_ids_only:
  "unique_ids db \<Longrightarrow> r \<in> set db \<Longrightarrow> r_id r = Some i \<Longrightarrow>
   filter (\<lambda>x. r_id x = Some i) db = [r]"
proof (induction db)
  case Nil
  then show ?case by simp
next
  case (Cons x db)
  have u: "unique_ids db"
    using Cons.prems(1) by (auto simp: unique_ids_def split: if_splits)
  show ?case
  proof (cases "r_id x = Some i")
    case True
    have "Some i \<notin> set (filter (\<lambda>i. i \<noteq> None) (map r_id db))"
      using Cons.prems(1) True by (simp add: unique_ids_def)
    then have "Some i \<notin> r_id ` set db"
      by simp
    then have none: "\<forall>y\<in>set db. r_id y \<noteq> Some i"
      by (metis imageI)
    then have "r = x"
      using Cons.prems(2,3) by auto
    moreover have "filter (\<lambda>x. r_id x = Some i) db = []"
      using none by (simp add: filter_empty_conv)
    ultimately show ?thesis
      using True by simp
  next
    case False
    then have "r \<in> set db"
      using Cons.prems(2,3) by auto
    then show ?thesis
      using Cons.IH u Cons.prems(3) False by simp
  qed
qed

lemma ior_present:
  assumes "unique_ids db" and "r \<in> set db" and "r_id r \<noteq> None"
  shows "mset (insert_or_replace r db) = mset db"
proof -
  obtain i where i: "r_id r = Some i"
    using assms(3) by auto
  have "mset db = mset (filter (\<lambda>x. r_id x = Some i) db) + mset (filter (\<lambda>x. r_id x \<noteq> Some i) db)"
    using multiset_partition [of "mset db" "\<lambda>x. r_id x = Some i"] by simp
  also have "filter (\<lambda>x. r_id x = Some i) db = [r]"
    using assms(1,2) i by (rule unique_ids_only)
  finally show ?thesis
    using i by (simp add: insert_or_replace_def)
qed

lemma unique_ids_mset: "mset db = mset db' \<Longrightarrow> unique_ids db = unique_ids db'"
proof -
  assume "mset db = mset db'"
  then have "mset (filter (\<lambda>i. i \<noteq> None) (map r_id db)) = mset (filter (\<lambda>i. i \<noteq> None) (map r_id db'))"
    by (metis mset_filter mset_map)
  then show ?thesis
    unfolding unique_ids_def by (rule mset_eq_imp_distinct_iff)
qed

lemma unique_ids_ior: "unique_ids db \<Longrightarrow> unique_ids (insert_or_replace r db)"
proof (cases "r_id r")
  case None
  assume "unique_ids db"
  then show ?thesis
    using None by (simp add: insert_or_replace_def unique_ids_def)
next
  case (Some i)
  assume u: "unique_ids db"
  have "filter (\<lambda>i. i \<noteq> None) (map r_id (filter (\<lambda>x. r_id x \<noteq> Some i) db))
      = filter (\<lambda>j. j \<noteq> Some i) (filter (\<lambda>i. i \<noteq> None) (map r_id db))"
    by (induction db) auto
  moreover have "distinct (filter (\<lambda>j. j \<noteq> Some i) (filter (\<lambda>i. i \<noteq> None) (map r_id db)))"
    using u unfolding unique_ids_def by (rule distinct_filter)
  ultimately show ?thesis
    using Some by (simp add: insert_or_replace_def unique_ids_def)
qed

lemma unique_ids_fold: "unique_ids db \<Longrightarrow> unique_ids (fold insert_or_replace batch db)"
  by (induction batch arbitrary: db) (simp_all add: unique_ids_ior)

lemma fold_ior_present:
  "unique_ids db \<Longrightarrow> set batch \<subseteq> set db \<Longrightarrow> \<forall>r\<in>set batch. r_id r \<noteq> None \<Longrightarrow>
   mset (fold insert_or_replace batch db) = mset db"
proof (induction batch arbitrary: db)
  case Nil
  then show ?case by simp
next
  case (Cons r batch)
  have m: "mset (insert_or_replace r db) = mset db"
    using Cons.prems by (intro ior_present) simp_all
  then have s: "set (insert_or_replace r db) = set db"
    by (rule mset_eq_setD)
  have "mset (fold insert_or_replace batch (insert_or_replace r db)) = mset (insert_or_replace r db)"
    using Cons.prems unfolding s [symmetric]
    by (intro Cons.IH unique_ids_ior) (simp_all add: s)
  then show ?case
    using m by simp
qed

lemma synced_ids_Cons:
  "synced_ids (a # accts)
   = (case dict_get (a_id a) of None \<Rightarrow> [] | Some i \<Rightarrow> if i = [] then [] else [i]) @ synced_ids accts"
  by (simp add: synced_ids_def)

lemma sync_accounts_fold:
  assumes "\<forall>i\<in>set (synced_ids accts).
      fetch_all_tx_for_account (up i) i aft = Some (Inr (F i))
      \<and> (\<forall>tx\<in>set (F i). normalize_tx i tx = Inr (g i tx))"
  shows "sync_accounts up aft accts db
    = Some (None, fold insert_or_replace
        (concat (map (\<lambda>i. map (g i) (F i)) (synced_ids accts))) db)"
  using assms
proof (induction accts arbitrary: db)
  case Nil
  then show ?case by (simp add: synced_ids_def)
next
  case (Cons a accts)
  show ?case
  proof (cases "\<exists>i. dict_get (a_id a) = Some i \<and> i \<noteq> []")
    case False
    then have s: "synced_ids (a # accts) = synced_ids accts"
      and k: "sync_accounts up aft (a # accts) db = sync_accounts up aft accts db"
      by (auto simp: synced_ids_Cons split: option.splits)
    show ?thesis
      unfolding s k using Cons.prems unfolding s by (rule Cons.IH)
  next
    case True
    then obtain i where i: "dict_get (a_id a) = Some i" "i \<noteq> []"
      by blast
    have s: "synced_ids (a # accts) = i # synced_ids accts"
      using i by (simp add: synced_ids_Cons)
    have f: "fetch_all_tx_for_account (up i) i aft = Some (Inr (F i))"
      and n: "\<forall>tx\<in>set (F i). normalize_tx i tx = Inr (g i tx)"
      and rest: "\<forall>i\<in>set (synced_ids accts).
        fetch_all_tx_for_account (up i) i aft = Some (Inr (F i))
        \<and> (\<forall>tx\<in>set (F i). normalize_tx i tx = Inr (g i tx))"
      using Cons.prems unfolding s by simp_all
    have rows: "sync_rows i (F i) [] db = (None, fold insert_or_replace ([] @ map (g i) (F i)) db)"
      using n by (rule sync_rows_fold)
    have "sync_accounts up aft (a # accts) db
        = sync_accounts up aft accts (fold insert_or_replace (map (g i) (F i)) db)"
      using i f rows by simp
    also have "\<dots> = Some (None, fold insert_or_replace
        (concat (map (\<lambda>i. map (g i) (F i)) (synced_ids accts)))
        (fold insert_or_replace (map (g i) (F i)) db))"
      using rest by (rule Cons.IH)
    finally show ?thesis
      unfolding s by simp
  qed
qed

lemma normalize_tagged: "normalize_tx i (tx\<lparr>account_id := a\<rparr>) = normalize_tx i tx"
proof -
  have v: "sync_vendor_name (tx\<lparr>account_id := a\<rparr>) = sync_vendor_name tx"
    by (simp add: sync_vendor_name_def card_merchant_def)
  have f: "tx_id (tx\<lparr>account_id := a\<rparr>) = tx_id tx"
    "kind (tx\<lparr>account_id := a\<rparr>) = kind tx"
    "createdAt (tx\<lparr>account_id := a\<rparr>) = createdAt tx"
    "amount (tx\<lparr>account_id := a\<rparr>) = amount tx"
    "counterpartyName (tx\<lparr>account_id := a\<rparr>) = counterpartyName tx"
    "bankDescription (tx\<lparr>account_id := a\<rparr>) = bankDescription tx"
    "mercuryCategory (tx\<lparr>account_id := a\<rparr>) = mercuryCategory tx"
    by simp_all
  show ?thesis
    unfolding normalize_tx_def v f by (rule refl)
qed

lemma normalize_well_formed:
  assumes "truthy (tx_key tx)" and "dict_get_default (kind tx) [] \<noteq> None"
  shows "\<exists>r. normalize_tx i tx = Inr r \<and> r_id r = tx_key tx \<and> r_id r \<noteq> None
      \<and> r_createdAt r = dict_get (createdAt tx) \<and> r_account_id r = Some i"
proof -
  obtain k where k: "dict_get_default (kind tx) [] = Some k"
    using assms(2) by auto
  obtain v where v: "tx_id tx = Val v"
    using assms(1) by (cases "tx_id tx") (simp_all add: truthy_def tx_key_def dict_get_def)
  show ?thesis
    by (simp add: normalize_tx_def dict_index_def tx_key_def dict_get_def v k)
qed

lemma get_max_upper: "x \<in> set db \<Longrightarrow> r_createdAt x \<le> get_max_createdAt db"
proof (cases "r_createdAt x")
  case None
  then show ?thesis by simp
next
  case (Some c)
  assume x: "x \<in> set db"
  then have mem: "Some c \<in> set (map r_createdAt db)"
    using Some by force
  then have "\<not> (\<forall>v\<in>set (map r_createdAt db). v = None)"
    by blast
  then have "sql_max (map r_createdAt db) \<noteq> None"
    using sql_max_None [of "map r_createdAt db"] by blast
  then obtain m where m: "sql_max (map r_createdAt db) = Some m"
    by auto
  have "c \<le> m"
    using m mem by (rule sql_max_Some_upper)
  then show ?thesis
    using Some m by (simp add: get_max_createdAt_def)
qed

lemma get_max_attained:
  "get_max_createdAt db = Some m \<Longrightarrow> \<exists>x\<in>set db. r_createdAt x = Some m"
  using sql_max_Some_mem [of "map r_createdAt db" m] by (auto simp: get_max_createdAt_def)

lemma fold_ior_exists:
  "\<exists>x\<in>set db. P x \<Longrightarrow> \<forall>r\<in>set batch. P r \<Longrightarrow> \<exists>x\<in>set (fold insert_or_replace batch db). P x"
proof (induction batch arbitrary: db)
  case Nil
  then show ?case by simp
next
  case (Cons r batch)
  have "\<exists>x\<in>set (insert_or_replace r db). P x"
    using Cons.prems(2) ior_new_mem [of r db] by auto
  then show ?case
    using Cons.prems(2) Cons.IH by simp
qed

lemma watermark_grows:
  assumes "\<forall>r\<in>set batch. get_max_createdAt db \<le> r_createdAt r"
  shows "get_max_createdAt db \<le> get_max_createdAt (fold insert_or_replace batch db)"
proof (cases "get_max_createdAt db")
  case None
  then show ?thesis by simp
next
  case (Some m)
  then obtain x where "x \<in> set db" "Some m \<le> r_createdAt x"
    using get_max_attained by fastforce
  then have "\<exists>x\<in>set db. Some m \<le> r_createdAt x"
    by blast
  moreover have "\<forall>r\<in>set batch. Some m \<le> r_createdAt r"
    using assms Some by simp
  ultimately obtain y where y: "y \<in> set (fold insert_or_replace batch db)" "Some m \<le> r_createdAt y"
    using fold_ior_exists [of db "\<lambda>x. Some m \<le> r_createdAt x" batch] by blast
  have "r_createdAt y \<le> get_max_createdAt (fold insert_or_replace batch db)"
    using y(1) by (rule get_max_upper)
  then show ?thesis
    using y(2) Some by simp
qed

lemma in_window_above:
  "truthy w \<Longrightarrow> in_window (sent_bound w) t \<Longrightarrow> w \<le> dict_get (createdAt t)"
  by (cases w; cases "dict_get (createdAt t)")
    (auto simp: in_window_def sent_bound_def truthy_def split: if_splits)

lemma in_window_unbound: "\<not> truthy w \<Longrightarrow> in_window (sent_bound w) t"
  by (simp add: in_window_def sent_bound_def)

lemma in_window_mono:
  "w \<le> w' \<Longrightarrow> in_window (sent_bound w') t \<Longrightarrow> in_window (sent_bound w) t"
  by (cases w; cases w'; cases "dict_get (createdAt t)")
    (auto simp: in_window_def sent_bound_def truthy_def split: if_splits)

lemma ledger_sync_result:
  assumes wf: "\<forall>i\<in>set (synced_ids accts). well_formed (ledger i)" and p: "0 < page_size"
  shows "sync_accounts (\<lambda>i. serve True page_size (ledger i)) w accts db
    = Some (None, fold insert_or_replace
        (concat (map (\<lambda>i. map (\<lambda>t. projr (normalize_tx i t))
                               (filter (in_window (sent_bound w)) (ledger i)))
                     (synced_ids accts))) db)"
proof -
  let ?F = "\<lambda>i. map (\<lambda>tx. tx\<lparr>account_id := Val i\<rparr>) (filter (in_window (sent_bound w)) (ledger i))"
  let ?g = "\<lambda>i t. projr (normalize_tx i t)"
  have each: "fetch_all_tx_for_account (serve True page_size (ledger i)) i w = Some (Inr (?F i))
      \<and> (\<forall>tx\<in>set (?F i). normalize_tx i tx = Inr (?g i tx))"
    if i: "i \<in> set (synced_ids accts)" for i
  proof -
    have w: "well_formed (ledger i)"
      using wf i by blast
    have f: "fetch_all_tx_for_account (serve True page_size (ledger i)) i w = Some (Inr (?F i))"
      using w p by (intro fetch_with_bound) (simp_all add: well_formed_def)
    have "normalize_tx i tx = Inr (?g i tx)" if "tx \<in> set (?F i)" for tx
    proof -
      from that obtain t where t: "t \<in> set (ledger i)" "tx = t\<lparr>account_id := Val i\<rparr>"
        by auto
      have "\<exists>r. normalize_tx i t = Inr r"
        using normalize_well_formed [of t i] w t(1) by (auto simp: well_formed_def)
      then show ?thesis
        unfolding t(2) normalize_tagged by auto
    qed
    with f show ?thesis by blast
  qed
  have main: "sync_accounts (\<lambda>i. serve True page_size (ledger i)) w accts db
    = Some (None, fold insert_or_replace
        (concat (map (\<lambda>i. map (?g i) (?F i)) (synced_ids accts))) db)"
    using each by (intro sync_accounts_fold) blast
  have eq: "(\<lambda>i. map (?g i) (?F i))
      = (\<lambda>i. map (\<lambda>t. projr (normalize_tx i t)) (filter (in_window (sent_bound w)) (ledger i)))"
    by (rule ext) (simp add: normalize_tagged comp_def)
  show ?thesis
    using main unfolding eq .
qed

lemma py_lower_kind: "py_lower ''debitCardTransaction'' = ''debitcardtransaction''"
  by code_simp

lemma example_row_of:
  "normalize_tx ''acc1'' (example_tx i c)
   = Inr \<lparr> r_id = Some i, r_account_id = Some ''acc1'', r_createdAt = Some c,
           r_amount = Some (- 25), r_kind = Some ''debitcardtransaction'',
           r_vendorName = Some ''Acme Tools'', r_counterpartyName = None,
           r_bankDescription = None, r_mercuryCategory = None \<rparr>"
  by (simp add: normalize_tx_def example_tx_def empty_tx_def dict_index_def dict_get_default_def
      dict_get_def py_lower_kind sync_vendor_name_def py_or_def truthy_def card_merchant_def)

lemma py_lower_latin1:
  "py_lower [CHR ''D'', CHR 0xC9, CHR ''B'', CHR ''I'', CHR ''T'', CHR 0xD7]
   = [CHR ''d'', CHR 0xE9, CHR ''b'', CHR ''i'', CHR ''t'', CHR 0xD7]"
  by code_simp

text \<open>
  C5, as stated, fails. The upstream holds one record whose id is null and serves the same
  page to both runs; nothing is new between them. The first incremental sync stores the
  record as a row with \<^verbatim>\<open>NULL\<close> id. The second fetches the same record, which is at the
  watermark, and stores it again: a row with \<^verbatim>\<open>NULL\<close> id conflicts with no row, so the
  store grows from one row to two.
\<close>

theorem incremental_sync_null_id_counterexample:
  "incremental_sync
      (ledger_env [example_account] 100
        (\<lambda>i. [(example_tx ''n1'' ''2024-03-01T00:00:00Z'')\<lparr>tx_id := Null\<rparr>]))
      []
     = Some (None,
        [\<lparr> r_id = None, r_account_id = Some ''acc1'', r_createdAt = Some ''2024-03-01T00:00:00Z'',
           r_amount = Some (- 25), r_kind = Some ''debitcardtransaction'',
           r_vendorName = Some ''Acme Tools'', r_counterpartyName = None,
           r_bankDescription = None, r_mercuryCategory = None \<rparr>])
   \<and> incremental_sync
      (ledger_env [example_account] 100
        (\<lambda>i. [(example_tx ''n1'' ''2024-03-01T00:00:00Z'')\<lparr>tx_id := Null\<rparr>]))
      [\<lparr> r_id = None, r_account_id = Some ''acc1'', r_createdAt = Some ''2024-03-01T00:00:00Z'',
         r_amount = Some (- 25), r_kind = Some ''debitcardtransaction'',
         r_vendorName = Some ''Acme Tools'', r_counterpartyName = None,
         r_bankDescription = None, r_mercuryCategory = None \<rparr>]
     = Some (None,
        [\<lparr> r_id = None, r_account_id = Some ''acc1'', r_createdAt = Some ''2024-03-01T00:00:00Z'',
           r_amount = Some (- 25), r_kind = Some ''debitcardtransaction'',
           r_vendorName = Some ''Acme Tools'', r_counterpartyName = None,
           r_bankDescription = None, r_mercuryCategory = None \<rparr>,
         \<lparr> r_id = None, r_account_id = Some ''acc1'', r_createdAt = Some ''2024-03-01T00:00:00Z'',
           r_amount = Some (- 25), r_kind = Some ''debitcardtransaction'',
           r_vendorName = Some ''Acme Tools'', r_counterpartyName = None,
           r_bankDescription = None, r_mercuryCategory = None \<rparr>])"
proof -
  let ?tn = "(example_tx ''n1'' ''2024-03-01T00:00:00Z'')\<lparr>tx_id := Null\<rparr>"
  let ?r = "\<lparr> r_id = None, r_account_id = Some ''acc1'', r_createdAt = Some ''2024-03-01T00:00:00Z'',
           r_amount = Some (- 25), r_kind = Some ''debitcardtransaction'',
           r_vendorName = Some ''Acme Tools'', r_counterpartyName = None,
           r_bankDescription = None, r_mercuryCategory = None \<rparr>"
  have k: "tx_key ?tn = None"
    by (simp add: tx_key_def dict_get_def)
  have c: "createdAt ?tn = Val ''2024-03-01T00:00:00Z''"
    by (simp add: example_tx_def)
  have f0: "fetch_all_tx_for_account (serve True 100 [?tn]) ''acc1'' None
      = Some (Inr [?tn\<lparr>account_id := Val ''acc1''\<rparr>])"
    unfolding fetch_all_tx_for_account_def
    by (subst fetch_loop.simps)
      (simp add: serve_def after_cursor_def truthy_def crossed_def Let_def in_window_def k)
  have f1: "fetch_all_tx_for_account (serve True 100 [?tn]) ''acc1'' (Some ''2024-03-01T00:00:00Z'')
      = Some (Inr [?tn\<lparr>account_id := Val ''acc1''\<rparr>])"
    unfolding fetch_all_tx_for_account_def
    by (subst fetch_loop.simps)
      (simp add: serve_def after_cursor_def truthy_def crossed_def Let_def in_window_def k c
        dict_get_def)
  have n: "normalize_tx ''acc1'' (?tn\<lparr>account_id := Val ''acc1''\<rparr>) = Inr ?r"
    unfolding normalize_tagged
    by (simp add: normalize_tx_def example_tx_def empty_tx_def dict_index_def dict_get_default_def
        dict_get_def py_lower_kind sync_vendor_name_def py_or_def truthy_def card_merchant_def)
  have a: "dict_get (a_id example_account) = Some ''acc1''"
    by (simp add: example_account_def dict_get_def)
  have w0: "get_max_createdAt [] = None"
    by (simp add: get_max_createdAt_def)
  have w1: "get_max_createdAt [?r] = Some ''2024-03-01T00:00:00Z''"
    by (simp add: get_max_createdAt_def)
  have 1: "incremental_sync (ledger_env [example_account] 100 (\<lambda>i. [?tn])) [] = Some (None, [?r])"
    unfolding incremental_sync_def ledger_env_def
    by (simp add: a w0 f0 n upsert_transactions_fold insert_or_replace_def)
  have 2: "incremental_sync (ledger_env [example_account] 100 (\<lambda>i. [?tn])) [?r]
      = Some (None, [?r, ?r])"
    unfolding incremental_sync_def ledger_env_def
    by (simp add: a w1 f1 n upsert_transactions_fold insert_or_replace_def)
  show ?thesis
    using 1 2 by simp
qed

text \<open>
  C5, amended. Two incremental syncs in a row against the same upstream. The upstream holds
  a ledger per account in which every id is a non-empty string and no kind is null, no id
  occurs twice within an account or across the accounts, and it serves the ledger in pages,
  applying the \<^verbatim>\<open>from\<close> bound. From any store that respects the primary key, both syncs
  complete without exception and the second leaves the store with exactly the rows it had:
  no row is added, none is lost, the size is unchanged.
\<close>

theorem incremental_sync_twice:
  assumes "unique_ids db0" and "0 < page_size"
    and "\<forall>i\<in>set (synced_ids accts). well_formed (ledger i)"
    and "\<forall>i\<in>set (synced_ids accts). \<forall>j\<in>set (synced_ids accts).
           \<forall>t\<in>set (ledger i). \<forall>u\<in>set (ledger j). tx_key t = tx_key u \<longrightarrow> i = j"
  shows "\<exists>db1 db2.
      incremental_sync (ledger_env accts page_size ledger) db0 = Some (None, db1)
    \<and> incremental_sync (ledger_env accts page_size ledger) db1 = Some (None, db2)
    \<and> mset db2 = mset db1 \<and> set db2 = set db1 \<and> length db2 = length db1"
proof -
  define R where "R w = concat (map (\<lambda>i. map (\<lambda>t. projr (normalize_tx i t))
      (filter (in_window (sent_bound w)) (ledger i))) (synced_ids accts))" for w
  define w0 where "w0 = get_max_createdAt db0"
  define db1 where "db1 = fold insert_or_replace (R w0) db0"
  define w1 where "w1 = get_max_createdAt db1"
  define db2 where "db2 = fold insert_or_replace (R w1) db1"
  have run: "incremental_sync (ledger_env accts page_size ledger) db
      = Some (None, fold insert_or_replace (R (get_max_createdAt db)) db)" for db
    unfolding incremental_sync_def ledger_env_def R_def
    using ledger_sync_result [OF assms(3,2)] by simp
  have mem: "r \<in> set (R w) \<longleftrightarrow>
      (\<exists>i\<in>set (synced_ids accts). \<exists>t\<in>set (ledger i).
          in_window (sent_bound w) t \<and> r = projr (normalize_tx i t))" for r w
    unfolding R_def by auto
  have row: "\<exists>r. normalize_tx i t = Inr r \<and> r_id r = tx_key t \<and> r_id r \<noteq> None
      \<and> r_createdAt r = dict_get (createdAt t)"
    if "i \<in> set (synced_ids accts)" "t \<in> set (ledger i)" for i t
  proof -
    have "truthy (tx_key t)" "dict_get_default (kind t) [] \<noteq> None"
      using assms(3) that by (auto simp: well_formed_def)
    then show ?thesis
      using normalize_well_formed [of t i] by blast
  qed
  have rid: "r_id (projr (normalize_tx i t)) = tx_key t \<and> r_id (projr (normalize_tx i t)) \<noteq> None
      \<and> r_createdAt (projr (normalize_tx i t)) = dict_get (createdAt t)"
    if "i \<in> set (synced_ids accts)" "t \<in> set (ledger i)" for i t
  proof -
    from row [OF that] obtain r where r: "normalize_tx i t = Inr r" "r_id r = tx_key t"
      "r_id r \<noteq> None" "r_createdAt r = dict_get (createdAt t)"
      by blast
    have "projr (normalize_tx i t) = r"
      by (simp add: r(1))
    then show ?thesis
      using r(2,3,4) by simp
  qed
  have same: "r' = r"
    if r: "r \<in> set (R w)" and r': "r' \<in> set (R w')" and e: "r_id r' = r_id r" for r r' w w'
  proof -
    from r obtain i t where it: "i \<in> set (synced_ids accts)" "t \<in> set (ledger i)"
      "r = projr (normalize_tx i t)"
      unfolding mem by blast
    from r' obtain j u where ju: "j \<in> set (synced_ids accts)" "u \<in> set (ledger j)"
      "r' = projr (normalize_tx j u)"
      unfolding mem by blast
    have k: "tx_key u = tx_key t"
      using e rid [OF it(1,2)] rid [OF ju(1,2)] it(3) ju(3) by simp
    then have ij: "j = i"
      using assms(4) it(1,2) ju(1,2) by metis
    have "inj_on tx_key (set (ledger i))"
      using assms(3) it(1) by (simp add: well_formed_def distinct_map)
    then have "u = t"
      using k ju(2) it(2) unfolding ij by (rule inj_onD)
    then show ?thesis
      using it(3) ju(3) ij by simp
  qed
  have u1: "unique_ids db1"
    unfolding db1_def using assms(1) by (rule unique_ids_fold)
  have sub: "set (R w1) \<subseteq> set (R w0)"
  proof (cases "truthy w0")
    case False
    show ?thesis
    proof
      fix r assume "r \<in> set (R w1)"
      then obtain i t where it: "i \<in> set (synced_ids accts)" "t \<in> set (ledger i)"
        "r = projr (normalize_tx i t)"
        unfolding mem by blast
      have "in_window (sent_bound w0) t"
        using False by (rule in_window_unbound)
      then show "r \<in> set (R w0)"
        unfolding mem using it by blast
    qed
  next
    case True
    have above: "\<forall>r\<in>set (R w0). get_max_createdAt db0 \<le> r_createdAt r"
    proof
      fix r assume "r \<in> set (R w0)"
      then obtain i t where it: "i \<in> set (synced_ids accts)" "t \<in> set (ledger i)"
        "in_window (sent_bound w0) t" "r = projr (normalize_tx i t)"
        unfolding mem by blast
      have "w0 \<le> dict_get (createdAt t)"
        using True it(3) by (rule in_window_above)
      then show "get_max_createdAt db0 \<le> r_createdAt r"
        using rid [OF it(1,2)] it(4) by (simp add: w0_def)
    qed
    have grow: "w0 \<le> w1"
      using above unfolding w0_def w1_def db1_def by (rule watermark_grows)
    show ?thesis
    proof
      fix r assume "r \<in> set (R w1)"
      then obtain i t where it: "i \<in> set (synced_ids accts)" "t \<in> set (ledger i)"
        "in_window (sent_bound w1) t" "r = projr (normalize_tx i t)"
        unfolding mem by blast
      have "in_window (sent_bound w0) t"
        using grow it(3) by (rule in_window_mono)
      then show "r \<in> set (R w0)"
        unfolding mem using it by blast
    qed
  qed
  have kept: "set (R w0) \<subseteq> set db1"
  proof
    fix r assume r: "r \<in> set (R w0)"
    have "\<forall>r'\<in>set (R w0). r_id r' = r_id r \<longrightarrow> r_id r = None \<or> r' = r"
      using same [OF r] by blast
    with r show "r \<in> set db1"
      unfolding db1_def by (rule fold_ior_new)
  qed
  have ids: "\<forall>r\<in>set (R w1). r_id r \<noteq> None"
  proof
    fix r assume "r \<in> set (R w1)"
    then obtain i t where it: "i \<in> set (synced_ids accts)" "t \<in> set (ledger i)"
      "r = projr (normalize_tx i t)"
      unfolding mem by blast
    show "r_id r \<noteq> None"
      unfolding it(3) using rid [OF it(1,2)] by blast
  qed
  have m: "mset db2 = mset db1"
    unfolding db2_def using u1 sub kept ids by (intro fold_ior_present) auto
  have r1: "incremental_sync (ledger_env accts page_size ledger) db0 = Some (None, db1)"
    unfolding run db1_def w0_def ..
  have r2: "incremental_sync (ledger_env accts page_size ledger) db1 = Some (None, db2)"
    unfolding run db2_def w1_def ..
  have "set db2 = set db1" "length db2 = length db1"
    using m by (rule mset_eq_setD, rule mset_eq_length)
  with r1 r2 m show ?thesis
    by blast
qed

theorem incremental_sync_twice_witness:
  "unique_ids [] \<and> (0::nat) < 1
   \<and> well_formed [example_tx ''t2'' ''2024-03-02T12:00:00Z'', example_tx ''t1'' ''2024-03-01T00:00:00Z'']
   \<and> (\<exists>db1 db2.
        incremental_sync
          (ledger_env [example_account] 1
            (\<lambda>i. [example_tx ''t2'' ''2024-03-02T12:00:00Z'', example_tx ''t1'' ''2024-03-01T00:00:00Z'']))
          [] = Some (None, db1)
      \<and> incremental_sync
          (ledger_env [example_account] 1
            (\<lambda>i. [example_tx ''t2'' ''2024-03-02T12:00:00Z'', example_tx ''t1'' ''2024-03-01T00:00:00Z'']))
          db1 = Some (None, db2)
      \<and> mset db2 = mset db1 \<and> set db2 = set db1 \<and> length db2 = length db1)
   \<and> map r_id (snd (the (incremental_sync
          (ledger_env [example_account] 1
            (\<lambda>i. [example_tx ''t2'' ''2024-03-02T12:00:00Z'', example_tx ''t1'' ''2024-03-01T00:00:00Z'']))
          []))) = [Some ''t2'', Some ''t1'']"
proof -
  let ?txs = "[example_tx ''t2'' ''2024-03-02T12:00:00Z'', example_tx ''t1'' ''2024-03-01T00:00:00Z'']"
  let ?ledger = "\<lambda>i::string. ?txs"
  have u: "unique_ids []"
    by (simp add: unique_ids_def)
  have p: "(0::nat) < 1"
    by simp
  have s: "synced_ids [example_account] = [''acc1'']"
    by (simp add: synced_ids_def example_account_def dict_get_def)
  have w: "well_formed ?txs"
    by (simp add: well_formed_def tx_key_def example_tx_def dict_get_def truthy_def
        dict_get_default_def)
  have wf: "\<forall>i\<in>set (synced_ids [example_account]). well_formed (?ledger i)"
    using w by simp
  have g: "\<forall>i\<in>set (synced_ids [example_account]). \<forall>j\<in>set (synced_ids [example_account]).
      \<forall>t\<in>set (?ledger i). \<forall>u\<in>set (?ledger j). tx_key t = tx_key u \<longrightarrow> i = j"
    unfolding s by simp
  have first: "incremental_sync (ledger_env [example_account] 1 ?ledger) []
      = Some (None, [projr (normalize_tx ''acc1'' (example_tx ''t2'' ''2024-03-02T12:00:00Z'')),
                     projr (normalize_tx ''acc1'' (example_tx ''t1'' ''2024-03-01T00:00:00Z''))])"
    unfolding incremental_sync_def ledger_env_def
    using ledger_sync_result [OF wf p, of None "[]"]
    by (simp add: s get_max_createdAt_def sent_bound_def truthy_def in_window_def
        example_row_of insert_or_replace_def)
  have ids: "map r_id (snd (the (incremental_sync (ledger_env [example_account] 1 ?ledger) [])))
      = [Some ''t2'', Some ''t1'']"
    unfolding first by (simp add: example_row_of)
  show ?thesis
    using incremental_sync_twice [OF u p wf g] u p w ids by blast
qed

section \<open>Properties of the notification feed\<close>

lemma tx_key_tagged [simp]:
  "tx_key (tx\<lparr>account_name := n, account_type := t\<rparr>) = tx_key tx"
  by (simp add: tx_key_def)

lemma scan_transactions_seen:
  "fst (scan_transactions name type txs seen new) = seen \<union> tx_key ` set txs"
  by (induction txs arbitrary: seen new) (auto simp: Let_def)

lemma scan_transactions_new:
  "\<exists>cs. snd (scan_transactions name type txs seen new) = new @ cs
      \<and> distinct (map tx_key cs)
      \<and> set (map tx_key cs) = tx_key ` set txs - seen
      \<and> (\<forall>c\<in>set cs. \<exists>tx\<in>set txs.
            c\<lparr>account_name := account_name tx, account_type := account_type tx\<rparr> = tx)"
proof (induction txs arbitrary: seen new)
  case Nil
  then show ?case by simp
next
  case (Cons tx txs)
  show ?case
  proof (cases "tx_key tx \<in> seen")
    case True
    from Cons.IH [of seen new] obtain cs where
      cs: "snd (scan_transactions name type txs seen new) = new @ cs"
      "distinct (map tx_key cs)" "set (map tx_key cs) = tx_key ` set txs - seen"
      "\<forall>c\<in>set cs. \<exists>tx\<in>set txs.
            c\<lparr>account_name := account_name tx, account_type := account_type tx\<rparr> = tx"
      by blast
    have "set (map tx_key cs) = tx_key ` set (tx # txs) - seen"
      using cs(3) True by auto
    moreover have "\<forall>c\<in>set cs. \<exists>t\<in>set (tx # txs).
            c\<lparr>account_name := account_name t, account_type := account_type t\<rparr> = t"
      using cs(4) by auto
    ultimately show ?thesis
      using True cs(1,2) by (simp add: Let_def)
  next
    case False
    let ?c = "tx\<lparr>account_name := dict_store name, account_type := Val type\<rparr>"
    from Cons.IH [of "insert (tx_key tx) seen" "new @ [?c]"] obtain cs where
      cs: "snd (scan_transactions name type txs (insert (tx_key tx) seen) (new @ [?c]))
            = (new @ [?c]) @ cs"
      "distinct (map tx_key cs)"
      "set (map tx_key cs) = tx_key ` set txs - insert (tx_key tx) seen"
      "\<forall>c\<in>set cs. \<exists>tx\<in>set txs.
            c\<lparr>account_name := account_name tx, account_type := account_type tx\<rparr> = tx"
      by blast
    have 1: "snd (scan_transactions name type (tx # txs) seen new) = new @ (?c # cs)"
      using False cs(1) by (simp add: Let_def)
    have 2: "distinct (map tx_key (?c # cs))"
      using cs(2,3) by auto
    have 3: "set (map tx_key (?c # cs)) = tx_key ` set (tx # txs) - seen"
      using cs(3) False by auto
    have "?c\<lparr>account_name := account_name tx, account_type := account_type tx\<rparr> = tx"
      by simp
    then have 4: "\<forall>c\<in>set (?c # cs). \<exists>t\<in>set (tx # txs).
            c\<lparr>account_name := account_name t, account_type := account_type t\<rparr> = t"
      using cs(4) by auto
    show ?thesis
      using 1 2 3 4 by blast
  qed
qed


lemma tagged_from_mono: "tagged_from txs c \<Longrightarrow> set txs \<subseteq> set txs' \<Longrightarrow> tagged_from txs' c"
  by (auto simp: tagged_from_def)

lemma scan_transactions_eq:
  "\<exists>cs. scan_transactions name type txs seen new = (seen \<union> tx_key ` set txs, new @ cs)
      \<and> distinct (map tx_key cs)
      \<and> set (map tx_key cs) = tx_key ` set txs - seen
      \<and> (\<forall>c\<in>set cs. tagged_from txs c)"
proof -
  from scan_transactions_new [of name type txs seen new] obtain cs where
    cs: "snd (scan_transactions name type txs seen new) = new @ cs"
    "distinct (map tx_key cs)" "set (map tx_key cs) = tx_key ` set txs - seen"
    "\<forall>c\<in>set cs. tagged_from txs c"
    unfolding tagged_from_def by blast
  have "scan_transactions name type txs seen new = (seen \<union> tx_key ` set txs, new @ cs)"
    using cs(1) scan_transactions_seen [of name type txs seen new]
    by (metis prod.collapse)
  with cs show ?thesis by blast
qed

lemma scan_accounts_ok:
  "fetch_accounts env accts = Inr T \<Longrightarrow>
   \<exists>cs. scan_accounts env accts seen new = (None, seen \<union> tx_key ` set T, new @ cs)
      \<and> distinct (map tx_key cs)
      \<and> set (map tx_key cs) = tx_key ` set T - seen
      \<and> (\<forall>c\<in>set cs. tagged_from T c)"
proof (induction accts arbitrary: seen new T)
  case Nil
  then show ?case by simp
next
  case (Cons account rest)
  show ?case
  proof (cases "\<exists>i. dict_get (a_id account) = Some i \<and> i \<noteq> []")
    case False
    then have skip: "scan_accounts env (account # rest) seen new = scan_accounts env rest seen new"
      "fetch_accounts env (account # rest) = fetch_accounts env rest"
      by (auto split: option.splits)
    show ?thesis
      using Cons.IH [of T seen new] Cons.prems unfolding skip by simp
  next
    case True
    then obtain i where i: "dict_get (a_id account) = Some i" "i \<noteq> []"
      by blast
    from Cons.prems i obtain txs others where
      f: "api_fetch env i = Inr txs" "fetch_accounts env rest = Inr others" "T = txs @ others"
      by (auto split: sum.splits)
    let ?name = "account_display_name account"
    let ?type = "if account \<in> set (api_credit_accounts env) then ''credit'' else ''core''"
    from scan_transactions_eq [of ?name ?type txs seen new] obtain cs1 where
      cs1: "scan_transactions ?name ?type txs seen new = (seen \<union> tx_key ` set txs, new @ cs1)"
      "distinct (map tx_key cs1)" "set (map tx_key cs1) = tx_key ` set txs - seen"
      "\<forall>c\<in>set cs1. tagged_from txs c"
      by blast
    from Cons.IH [OF f(2), of "seen \<union> tx_key ` set txs" "new @ cs1"] obtain cs2 where
      cs2: "scan_accounts env rest (seen \<union> tx_key ` set txs) (new @ cs1)
          = (None, (seen \<union> tx_key ` set txs) \<union> tx_key ` set others, (new @ cs1) @ cs2)"
      "distinct (map tx_key cs2)"
      "set (map tx_key cs2) = tx_key ` set others - (seen \<union> tx_key ` set txs)"
      "\<forall>c\<in>set cs2. tagged_from others c"
      by blast
    have 1: "scan_accounts env (account # rest) seen new
        = (None, seen \<union> tx_key ` set T, new @ (cs1 @ cs2))"
      using i f(1) cs1(1) cs2(1) f(3) by (simp add: Un_assoc image_Un)
    have 2: "distinct (map tx_key (cs1 @ cs2))"
      using cs1(2,3) cs2(2,3) by auto
    have 3: "set (map tx_key (cs1 @ cs2)) = tx_key ` set T - seen"
      using cs1(3) cs2(3) f(3) by auto
    have 4: "\<forall>c\<in>set (cs1 @ cs2). tagged_from T c"
      using cs1(4) cs2(4) f(3) by (auto intro: tagged_from_mono)
    show ?thesis
      using 1 2 3 4 by blast
  qed
qed

lemma scan_accounts_unfold:
  "scan_accounts env (account # rest) seen new = scan_accounts env rest seen new
   \<or> (\<exists>txs cs. scan_accounts env (account # rest) seen new
          = scan_accounts env rest (seen \<union> tx_key ` set txs) (new @ cs)
        \<and> set (map tx_key cs) = tx_key ` set txs - seen)
   \<or> (\<exists>e'. scan_accounts env (account # rest) seen new = (Some e', seen, new))"
proof (cases "\<exists>i. dict_get (a_id account) = Some i \<and> i \<noteq> []")
  case False
  then have "scan_accounts env (account # rest) seen new = scan_accounts env rest seen new"
    by (auto split: option.splits)
  then show ?thesis by simp
next
  case True
  then obtain i where i: "dict_get (a_id account) = Some i" "i \<noteq> []"
    by blast
  show ?thesis
  proof (cases "api_fetch env i")
    case (Inl e')
    then have "scan_accounts env (account # rest) seen new = (Some e', seen, new)"
      using i by simp
    then show ?thesis by simp
  next
    case (Inr txs)
    let ?name = "account_display_name account"
    let ?type = "if account \<in> set (api_credit_accounts env) then ''credit'' else ''core''"
    from scan_transactions_eq [of ?name ?type txs seen new] obtain cs1 where
      cs1: "scan_transactions ?name ?type txs seen new = (seen \<union> tx_key ` set txs, new @ cs1)"
      "set (map tx_key cs1) = tx_key ` set txs - seen"
      by blast
    have "scan_accounts env (account # rest) seen new
        = scan_accounts env rest (seen \<union> tx_key ` set txs) (new @ cs1)"
      using i Inr cs1(1) by simp
    with cs1(2) have "\<exists>txs cs. scan_accounts env (account # rest) seen new
          = scan_accounts env rest (seen \<union> tx_key ` set txs) (new @ cs)
        \<and> set (map tx_key cs) = tx_key ` set txs - seen"
      by (intro exI [of _ txs] exI [of _ cs1]) simp
    then show ?thesis by simp
  qed
qed

lemma scan_accounts_mono: "seen \<subseteq> fst (snd (scan_accounts env accts seen new))"
proof (induction accts arbitrary: seen new)
  case Nil
  then show ?case by simp
next
  case (Cons account rest)
  consider (stop) e' where "scan_accounts env (account # rest) seen new = (Some e', seen, new)"
    | (skip) "scan_accounts env (account # rest) seen new = scan_accounts env rest seen new"
    | (go) txs cs where "scan_accounts env (account # rest) seen new
          = scan_accounts env rest (seen \<union> tx_key ` set txs) (new @ cs)"
    using scan_accounts_unfold [of env account rest seen new] by blast
  then show ?case
  proof cases
    case stop
    then show ?thesis by simp
  next
    case skip
    then show ?thesis using Cons.IH [of seen new] by simp
  next
    case go
    have "seen \<subseteq> seen \<union> tx_key ` set txs"
      by (rule Un_upper1)
    also have "\<dots> \<subseteq> fst (snd (scan_accounts env rest (seen \<union> tx_key ` set txs) (new @ cs)))"
      by (rule Cons.IH)
    finally show ?thesis
      unfolding go .
  qed
qed

lemma scan_accounts_keys:
  "tx_key ` set (snd (snd (scan_accounts env accts seen new)))
   \<subseteq> tx_key ` set new \<union> (fst (snd (scan_accounts env accts seen new)) - seen)"
proof (induction accts arbitrary: seen new)
  case Nil
  then show ?case by simp
next
  case (Cons account rest)
  consider (stop) e' where "scan_accounts env (account # rest) seen new = (Some e', seen, new)"
    | (skip) "scan_accounts env (account # rest) seen new = scan_accounts env rest seen new"
    | (go) txs cs where "scan_accounts env (account # rest) seen new
          = scan_accounts env rest (seen \<union> tx_key ` set txs) (new @ cs)"
        "set (map tx_key cs) = tx_key ` set txs - seen"
    using scan_accounts_unfold [of env account rest seen new] by blast
  then show ?case
  proof cases
    case stop
    then show ?thesis by simp
  next
    case skip
    then show ?thesis using Cons.IH [of seen new] by simp
  next
    case go
    let ?s1 = "seen \<union> tx_key ` set txs"
    let ?r = "scan_accounts env rest ?s1 (new @ cs)"
    have ih: "tx_key ` set (snd (snd ?r)) \<subseteq> tx_key ` set (new @ cs) \<union> (fst (snd ?r) - ?s1)"
      by (rule Cons.IH)
    have mono: "?s1 \<subseteq> fst (snd ?r)"
      by (rule scan_accounts_mono)
    have k: "tx_key ` set cs = tx_key ` set txs - seen"
      using go(2) by simp
    have "tx_key ` set (new @ cs) \<subseteq> tx_key ` set new \<union> (fst (snd ?r) - seen)"
      using mono by (auto simp: image_Un k)
    moreover have "fst (snd ?r) - ?s1 \<subseteq> fst (snd ?r) - seen"
      by blast
    ultimately have "tx_key ` set (snd (snd ?r)) \<subseteq> tx_key ` set new \<union> (fst (snd ?r) - seen)"
      using ih by blast
    then show ?thesis
      unfolding go(1) .
  qed
qed

lemma send_loop_step:
  "(\<exists>e. send_loop ((tx, a) # rest) m sent = (Some e, m, sent))
   \<or> send_loop ((tx, a) # rest) m sent = send_loop rest m sent
   \<or> send_loop ((tx, a) # rest) m sent
       = send_loop rest
           (m\<lparr>last_notification_time := (last_notification_time m)(get_vendor_name tx \<mapsto> sent_at a)\<rparr>)
           (sent @ [tx])"
  by (simp add: Let_def split: sum.split option.split)

lemma send_loop_sent:
  "set (snd (snd (send_loop cands m sent))) \<subseteq> set sent \<union> fst ` set cands"
proof (induction cands arbitrary: m sent)
  case Nil
  then show ?case by simp
next
  case (Cons p cands)
  obtain tx a where p: "p = (tx, a)"
    by (cases p)
  let ?m = "m\<lparr>last_notification_time :=
      (last_notification_time m)(get_vendor_name tx \<mapsto> sent_at a)\<rparr>"
  have 1: "set (snd (snd (send_loop cands m sent))) \<subseteq> set sent \<union> fst ` set (p # cands)"
    using Cons.IH [of m sent] by auto
  have 2: "set (snd (snd (send_loop cands ?m (sent @ [tx])))) \<subseteq> set sent \<union> fst ` set (p # cands)"
    using Cons.IH [of ?m "sent @ [tx]"] p by auto
  from send_loop_step [of tx a cands m sent] show ?case
    unfolding p [symmetric] using 1 2 by (elim disjE exE) auto
qed

lemma send_loop_seen:
  "last_checked_transactions (fst (snd (send_loop cands m sent))) = last_checked_transactions m"
proof (induction cands arbitrary: m sent)
  case Nil
  then show ?case by simp
next
  case (Cons p cands)
  obtain tx a where p: "p = (tx, a)"
    by (cases p)
  let ?m = "m\<lparr>last_notification_time :=
      (last_notification_time m)(get_vendor_name tx \<mapsto> sent_at a)\<rparr>"
  have 1: "last_checked_transactions (fst (snd (send_loop cands m sent)))
      = last_checked_transactions m"
    by (rule Cons.IH)
  have 2: "last_checked_transactions (fst (snd (send_loop cands ?m (sent @ [tx]))))
      = last_checked_transactions m"
    using Cons.IH [of ?m "sent @ [tx]"] by simp
  from send_loop_step [of tx a cands m sent] show ?case
    unfolding p [symmetric] using 1 2 by (elim disjE exE) simp_all
qed

lemma send_notifications_sent:
  "set (snd (snd (send_transaction_notifications m ch cands))) \<subseteq> fst ` set cands"
  using send_loop_sent [of cands m "[]"] by (simp add: send_transaction_notifications_def)

lemma send_notifications_seen:
  "last_checked_transactions (fst (snd (send_transaction_notifications m ch cands)))
   = last_checked_transactions m"
  by (simp add: send_transaction_notifications_def send_loop_seen)

lemma check_seen:
  "last_checked_transactions (fst (check_for_new_transactions m env))
   = fst (snd (scan_accounts env (api_accounts env @ api_credit_accounts env)
        (last_checked_transactions m) []))"
proof -
  obtain err seen new where
    r: "scan_accounts env (api_accounts env @ api_credit_accounts env)
          (last_checked_transactions m) [] = (err, seen, new)"
    by (metis prod_cases3)
  let ?m = "m\<lparr>last_checked_transactions := seen\<rparr>"
  have "last_checked_transactions
      (fst (snd (send_transaction_notifications ?m (channel_found env)
        (map (\<lambda>tx. (tx, attempts env tx)) new)))) = seen"
    by (simp add: send_notifications_seen)
  then show ?thesis
    unfolding check_for_new_transactions_def r
    by (cases err) (simp_all add: case_prod_beta)
qed

lemma check_sent:
  "set (snd (check_for_new_transactions m env))
   \<subseteq> set (snd (snd (scan_accounts env (api_accounts env @ api_credit_accounts env)
        (last_checked_transactions m) [])))"
proof -
  obtain err seen new where
    r: "scan_accounts env (api_accounts env @ api_credit_accounts env)
          (last_checked_transactions m) [] = (err, seen, new)"
    by (metis prod_cases3)
  let ?m = "m\<lparr>last_checked_transactions := seen\<rparr>"
  have "set (snd (snd (send_transaction_notifications ?m (channel_found env)
        (map (\<lambda>tx. (tx, attempts env tx)) new)))) \<subseteq> fst ` set (map (\<lambda>tx. (tx, attempts env tx)) new)"
    by (rule send_notifications_sent)
  also have "\<dots> = set new"
    by (simp add: image_comp comp_def)
  finally have "set (snd (snd (send_transaction_notifications ?m (channel_found env)
        (map (\<lambda>tx. (tx, attempts env tx)) new)))) \<subseteq> set new" .
  then show ?thesis
    unfolding check_for_new_transactions_def r
    by (cases err) (simp_all add: case_prod_beta)
qed

lemma check_keeps_seen:
  "last_checked_transactions m \<subseteq> last_checked_transactions (fst (check_for_new_transactions m env))"
  unfolding check_seen by (rule scan_accounts_mono)

lemma check_sent_fresh:
  "tx_key ` set (snd (check_for_new_transactions m env)) \<inter> last_checked_transactions m = {}"
proof -
  let ?r = "scan_accounts env (api_accounts env @ api_credit_accounts env)
        (last_checked_transactions m) []"
  have "tx_key ` set (snd (check_for_new_transactions m env)) \<subseteq> tx_key ` set (snd (snd ?r))"
    using check_sent [of m env] by blast
  also have "\<dots> \<subseteq> tx_key ` set [] \<union> (fst (snd ?r) - last_checked_transactions m)"
    by (rule scan_accounts_keys)
  finally show ?thesis
    by auto
qed

lemma seed_accounts_mono: "seen \<subseteq> seed_accounts env accts seen"
proof (induction accts arbitrary: seen)
  case Nil
  then show ?case by simp
next
  case (Cons account rest)
  have 1: "seen \<subseteq> seed_accounts env rest seen"
    by (rule Cons.IH)
  have 2: "seen \<subseteq> seed_accounts env rest (seen \<union> X)" for X
    using Cons.IH [of "seen \<union> X"] by blast
  show ?case
    using 1 2 by (simp split: option.split sum.split)
qed

lemma initialize_keeps_seen:
  "last_checked_transactions m \<subseteq> last_checked_transactions (initialize_transaction_cache m env)"
  by (simp add: initialize_transaction_cache_def seed_accounts_mono)

lemma run_feed_never_seen:
  "i \<in> last_checked_transactions m \<Longrightarrow> i \<notin> tx_key ` set sent \<Longrightarrow>
   i \<notin> tx_key ` set (snd (run_feed evs m sent))"
proof (induction evs arbitrary: m sent)
  case Nil
  then show ?case by simp
next
  case (Cons ev evs)
  show ?case
  proof (cases ev)
    case (Initialize env)
    have "i \<in> last_checked_transactions (initialize_transaction_cache m env)"
      using Cons.prems(1) initialize_keeps_seen by blast
    then show ?thesis
      using Cons.IH Cons.prems(2) Initialize by simp
  next
    case (Tick env)
    obtain m' s where c: "check_for_new_transactions m env = (m', s)"
      by (cases "check_for_new_transactions m env")
    have "i \<in> last_checked_transactions m'"
      using Cons.prems(1) check_keeps_seen [of m env] c by auto
    moreover have "i \<notin> tx_key ` set s"
      using Cons.prems(1) check_sent_fresh [of m env] c by auto
    then have "i \<notin> tx_key ` set (sent @ s)"
      using Cons.prems(2) by auto
    ultimately have "i \<notin> tx_key ` set (snd (run_feed evs m' (sent @ s)))"
      by (rule Cons.IH)
    then show ?thesis
      using Tick c by simp
  next
    case (UpdateSettings s)
    have "i \<in> last_checked_transactions (update_notification_settings m s)"
      using Cons.prems(1) by (simp add: update_notification_settings_def)
    then show ?thesis
      using Cons.IH Cons.prems(2) UpdateSettings by simp
  qed
qed



text \<open>
  C10. Permanent suppression. Every id a tick fetches is in the seen-set when the tick
  ends, whatever the filter, the cooldown and the delivery did with the candidate; and a
  transaction whose id is in the seen-set is never notified afterwards, through any sequence
  of later ticks, settings updates and re-seedings. So a transaction fetched in a tick is
  not notified by any later tick.
\<close>

theorem seen_never_notified:
  "(fetch_accounts env (api_accounts env @ api_credit_accounts env) = Inr T \<longrightarrow>
      tx_key ` set T \<subseteq> last_checked_transactions (fst (check_for_new_transactions m env)))
   \<and> (i \<in> last_checked_transactions m \<longrightarrow> i \<notin> tx_key ` set (snd (run_feed evs m [])))
   \<and> (fetch_accounts env (api_accounts env @ api_credit_accounts env) = Inr T \<and> tx \<in> set T \<longrightarrow>
      tx_key tx \<notin> tx_key ` set (snd (run_feed evs (fst (check_for_new_transactions m env)) [])))"
proof -
  have detect: "tx_key ` set T \<subseteq> last_checked_transactions (fst (check_for_new_transactions m env))"
    if "fetch_accounts env (api_accounts env @ api_credit_accounts env) = Inr T" for T
  proof -
    from scan_accounts_ok [OF that, of "last_checked_transactions m" "[]"] obtain cs where
      "scan_accounts env (api_accounts env @ api_credit_accounts env)
          (last_checked_transactions m) []
        = (None, last_checked_transactions m \<union> tx_key ` set T, [] @ cs)"
      by blast
    then show ?thesis
      by (simp add: check_seen)
  qed
  have never: "j \<notin> tx_key ` set (snd (run_feed evs m' []))"
    if "j \<in> last_checked_transactions m'" for j m'
    using that by (rule run_feed_never_seen) simp
  have later: "tx_key tx \<notin> tx_key ` set (snd (run_feed evs (fst (check_for_new_transactions m env)) []))"
    if "fetch_accounts env (api_accounts env @ api_credit_accounts env) = Inr T" "tx \<in> set T"
  proof -
    have "tx_key tx \<in> last_checked_transactions (fst (check_for_new_transactions m env))"
      using detect [OF that(1)] that(2) by blast
    then show ?thesis
      by (rule never)
  qed
  show ?thesis
    using detect never later by blast
qed

lemma py_lower_vendor: "py_lower ''Acme Tools'' = ''acme tools''"
  by code_simp

lemma example_should_notify:
  "should_notify_transaction default_settings (example_tx i c) = Inr True"
  by (simp add: should_notify_transaction_def default_settings_def example_tx_def empty_tx_def
      dict_get_default_def py_lower_kind)




lemma should_notify_tagged:
  "should_notify_transaction s (tx\<lparr>account_name := n, account_type := t\<rparr>)
   = should_notify_transaction s tx"
proof -
  have v: "get_vendor_name (tx\<lparr>account_name := n, account_type := t\<rparr>) = get_vendor_name tx"
    by (simp add: get_vendor_name_def card_merchant_def)
  have f: "amount (tx\<lparr>account_name := n, account_type := t\<rparr>) = amount tx"
    "kind (tx\<lparr>account_name := n, account_type := t\<rparr>) = kind tx"
    "mercuryCategory (tx\<lparr>account_name := n, account_type := t\<rparr>) = mercuryCategory tx"
    by simp_all
  show ?thesis
    unfolding should_notify_transaction_def v f by (rule refl)
qed

lemma example_scan:
  "scan_accounts (example_env [example_tx i c]) [example_account] seen []
   = (if Some i \<in> seen then (None, seen, [])
      else (None, insert (Some i) seen,
            [(example_tx i c)\<lparr>account_name := Val ''Checking'', account_type := Val ''core''\<rparr>]))"
  by (simp add: example_env_def example_account_def dict_get_def account_display_name_def
      dict_store_def tx_key_def example_tx_def Let_def)

theorem seen_never_notified_witness:
  "fetch_accounts (example_env [example_tx ''A'' ''2024-03-01T10:00:00Z''])
      (api_accounts (example_env [example_tx ''A'' ''2024-03-01T10:00:00Z''])
       @ api_credit_accounts (example_env [example_tx ''A'' ''2024-03-01T10:00:00Z'']))
     = Inr [example_tx ''A'' ''2024-03-01T10:00:00Z'']
   \<and> snd (check_for_new_transactions
        (init_monitor\<lparr>notification_settings := default_settings\<lparr>enabled := False\<rparr>\<rparr>)
        (example_env [example_tx ''A'' ''2024-03-01T10:00:00Z''])) = []
   \<and> tx_key (example_tx ''A'' ''2024-03-01T10:00:00Z'')
      \<notin> tx_key ` set (snd (run_feed
          [UpdateSettings default_settings, Tick (example_env [example_tx ''A'' ''2024-03-01T10:00:00Z''])]
          (fst (check_for_new_transactions
            (init_monitor\<lparr>notification_settings := default_settings\<lparr>enabled := False\<rparr>\<rparr>)
            (example_env [example_tx ''A'' ''2024-03-01T10:00:00Z''])))
          []))
   \<and> snd (check_for_new_transactions init_monitor
        (example_env [example_tx ''A'' ''2024-03-01T10:00:00Z'']))
     = [(example_tx ''A'' ''2024-03-01T10:00:00Z'')
          \<lparr>account_name := Val ''Checking'', account_type := Val ''core''\<rparr>]"
proof -
  let ?A = "example_tx ''A'' ''2024-03-01T10:00:00Z''"
  let ?env = "example_env [?A]"
  let ?m0 = "init_monitor\<lparr>notification_settings := default_settings\<lparr>enabled := False\<rparr>\<rparr>"
  have accts: "api_accounts ?env @ api_credit_accounts ?env = [example_account]"
    by (simp add: example_env_def)
  have f: "fetch_accounts ?env (api_accounts ?env @ api_credit_accounts ?env) = Inr [?A]"
    by (simp add: example_env_def example_account_def dict_get_def)
  have t1: "snd (check_for_new_transactions ?m0 ?env) = []"
    unfolding check_for_new_transactions_def accts example_scan
    by (simp add: init_monitor_def send_transaction_notifications_def should_notify_tagged
        should_notify_transaction_def)
  let ?A' = "?A\<lparr>account_name := Val ''Checking'', account_type := Val ''core''\<rparr>"
  have sn: "should_notify_transaction default_settings ?A' = Inr True"
    by (simp only: should_notify_tagged example_should_notify)
  have vn: "get_vendor_name ?A' = ''Acme Tools''"
    by (simp add: get_vendor_name_def card_merchant_def example_tx_def empty_tx_def dict_get_def
        py_or_def py_or_str_def truthy_def)
  have cr: "dict_get (createdAt ?A) = Some ''2024-03-01T10:00:00Z''"
    by (simp add: example_tx_def dict_get_def)
  have w: "channel_found ?env" "attempts ?env ?A' = \<lparr>checked_at = 1000, delivered = True, sent_at = 1001\<rparr>"
    by (simp_all add: example_env_def)
  have fresh: "snd (check_for_new_transactions init_monitor ?env) = [?A']"
    unfolding check_for_new_transactions_def accts example_scan
    by (simp add: init_monitor_def send_transaction_notifications_def sn vn cr w
        can_notify_vendor_def)
  have mem: "?A \<in> set [?A]"
    by simp
  from seen_never_notified [of ?env "[?A]" ?m0 "tx_key ?A"
      "[UpdateSettings default_settings, Tick ?env]" ?A] f mem
  have "tx_key ?A \<notin> tx_key ` set (snd (run_feed [UpdateSettings default_settings, Tick ?env]
      (fst (check_for_new_transactions ?m0 ?env)) []))"
    by blast
  then show ?thesis
    using f t1 fresh by blast
qed

section \<open>Records without id\<close>

lemma distinct_map_count:
  "distinct (map f xs) \<Longrightarrow> y \<in> f ` set xs \<Longrightarrow> length (filter (\<lambda>x. f x = y) xs) = 1"
proof (induction xs)
  case Nil
  then show ?case by simp
next
  case (Cons x xs)
  show ?case
  proof (cases "f x = y")
    case True
    then have "y \<notin> f ` set xs"
      using Cons.prems(1) by auto
    then have "filter (\<lambda>x. f x = y) xs = []"
      by (auto simp: filter_empty_conv)
    then show ?thesis
      using True by simp
  next
    case False
    then show ?thesis
      using Cons by auto
  qed
qed

lemma sync_rows_error:
  "length batch < 500 \<Longrightarrow> \<forall>t\<in>set pre. normalize_tx i t = Inr (g t) \<Longrightarrow>
   normalize_tx i tx' = Inl e \<Longrightarrow>
   sync_rows i (pre @ tx' # post) batch db
     = (Some e, fold insert_or_replace
          (take (500 * ((length batch + length pre) div 500)) (batch @ map g pre)) db)"
proof (induction pre arbitrary: batch db)
  case Nil
  then show ?case by simp
next
  case (Cons t pre)
  have n: "normalize_tx i t = Inr (g t)" and rest: "\<forall>t\<in>set pre. normalize_tx i t = Inr (g t)"
    using Cons.prems(2) by simp_all
  show ?case
  proof (cases "length (batch @ [g t]) \<ge> 500")
    case True
    then have full: "length (batch @ [g t]) = 500"
      using Cons.prems(1) by simp
    have "sync_rows i ((t # pre) @ tx' # post) batch db
        = sync_rows i (pre @ tx' # post) [] (upsert_transactions (batch @ [g t]) db)"
      using n True by simp
    also have "\<dots> = (Some e, fold insert_or_replace
        (take (500 * ((length ([]::row list) + length pre) div 500)) ([] @ map g pre))
        (upsert_transactions (batch @ [g t]) db))"
      using _ rest Cons.prems(3) by (rule Cons.IH) simp
    also have "\<dots> = (Some e, fold insert_or_replace
        ((batch @ [g t]) @ take (500 * (length pre div 500)) (map g pre)) db)"
      by (simp add: upsert_transactions_fold)
    also have "(batch @ [g t]) @ take (500 * (length pre div 500)) (map g pre)
        = take (length (batch @ [g t]) + 500 * (length pre div 500)) ((batch @ [g t]) @ map g pre)"
      by simp
    also have "length (batch @ [g t]) + 500 * (length pre div 500)
        = 500 * ((length batch + length (t # pre)) div 500)"
    proof -
      have "length batch + length (t # pre) = 500 + length pre"
        using full by simp
      then have "(length batch + length (t # pre)) div 500 = 1 + length pre div 500"
        by simp
      then show ?thesis
        using full by simp
    qed
    finally show ?thesis
      by simp
  next
    case False
    then have short: "length (batch @ [g t]) < 500"
      by simp
    have "sync_rows i ((t # pre) @ tx' # post) batch db
        = sync_rows i (pre @ tx' # post) (batch @ [g t]) db"
      using n False by simp
    also have "\<dots> = (Some e, fold insert_or_replace
        (take (500 * ((length (batch @ [g t]) + length pre) div 500)) ((batch @ [g t]) @ map g pre)) db)"
      using short rest Cons.prems(3) by (rule Cons.IH)
    finally show ?thesis
      by simp
  qed
qed

lemma sync_accounts_append:
  "sync_accounts up aft prior db = Some (None, db1) \<Longrightarrow>
   sync_accounts up aft (prior @ accts) db = sync_accounts up aft accts db1"
proof (induction prior arbitrary: db)
  case Nil
  then show ?case by simp
next
  case (Cons a prior)
  show ?case
  proof (cases "\<exists>i. dict_get (a_id a) = Some i \<and> i \<noteq> []")
    case False
    then have k: "sync_accounts up aft (a # ys) db = sync_accounts up aft ys db" for ys
      by (auto split: option.splits)
    show ?thesis
      using Cons.prems Cons.IH unfolding append_Cons k by blast
  next
    case True
    then obtain i where i: "dict_get (a_id a) = Some i" "i \<noteq> []"
      by blast
    have step: "sync_accounts up aft (a # ys) db
        = (case fetch_all_tx_for_account (up i) i aft of
            None \<Rightarrow> None
          | Some (Inl e) \<Rightarrow> Some (Some e, db)
          | Some (Inr txs) \<Rightarrow>
              (case sync_rows i txs [] db of
                 (Some e, db') \<Rightarrow> Some (Some e, db')
               | (None, db') \<Rightarrow> sync_accounts up aft ys db'))" for ys
      using i by simp
    from Cons.prems obtain txs where f: "fetch_all_tx_for_account (up i) i aft = Some (Inr txs)"
      unfolding step by (auto split: option.splits sum.splits)
    from Cons.prems obtain db' where r: "sync_rows i txs [] db = (None, db')"
      unfolding step f by (auto split: option.splits prod.splits)
    have tail: "sync_accounts up aft prior db' = Some (None, db1)"
      using Cons.prems unfolding step f by (simp add: r)
    have "sync_accounts up aft ((a # prior) @ accts) db = sync_accounts up aft (prior @ accts) db'"
      unfolding append_Cons step f by (simp add: r)
    also have "\<dots> = sync_accounts up aft accts db1"
      using tail by (rule Cons.IH)
    finally show ?thesis .
  qed
qed

lemma sync_accounts_error:
  assumes "sync_accounts up aft prior db = Some (None, db1)"
    and "dict_get (a_id acct) = Some i" and "i \<noteq> []"
    and "fetch_all_tx_for_account (up i) i aft = Some (Inr (pre @ tx' # post))"
    and "\<forall>t\<in>set pre. normalize_tx i t = Inr (g t)"
    and "normalize_tx i tx' = Inl e"
  shows "sync_accounts up aft (prior @ acct # rest) db
    = Some (Some e, fold insert_or_replace (take (500 * (length pre div 500)) (map g pre)) db1)"
proof -
  have rows: "sync_rows i (pre @ tx' # post) [] db1
      = (Some e, fold insert_or_replace
          (take (500 * ((length ([]::row list) + length pre) div 500)) ([] @ map g pre)) db1)"
    using _ assms(5,6) by (rule sync_rows_error) simp
  have "sync_accounts up aft (prior @ acct # rest) db = sync_accounts up aft (acct # rest) db1"
    using assms(1) by (rule sync_accounts_append)
  also have "\<dots> = Some (Some e, fold insert_or_replace
      (take (500 * (length pre div 500)) (map g pre)) db1)"
    using assms(2,3,4) rows by simp
  finally show ?thesis .
qed

lemma ior_null_count:
  "length (filter (\<lambda>r. r_id r = None) (insert_or_replace x db))
   = length (filter (\<lambda>r. r_id r = None) db) + (if r_id x = None then 1 else 0)"
proof (cases "r_id x")
  case None
  then show ?thesis
    by (simp add: insert_or_replace_def)
next
  case (Some v)
  have "filter (\<lambda>r. r_id r = None) (filter (\<lambda>r. r_id r \<noteq> Some v) db)
      = filter (\<lambda>r. r_id r = None) db"
    by (induction db) auto
  then show ?thesis
    using Some by (simp add: insert_or_replace_def)
qed

lemma fold_ior_null_count:
  "length (filter (\<lambda>r. r_id r = None) (fold insert_or_replace batch db))
   = length (filter (\<lambda>r. r_id r = None) db) + length (filter (\<lambda>r. r_id r = None) batch)"
  by (induction batch arbitrary: db) (simp_all add: ior_null_count)

text \<open>
  C8, as stated, fails. A record without id that a tick fetches while \<^verbatim>\<open>None\<close> is not in
  the seen-set becomes a notification candidate and \<^verbatim>\<open>None\<close> enters the seen-set; and
  \<^verbatim>\<open>upsert_transactions\<close> stores a record without id as a row whose key is \<^verbatim>\<open>NULL\<close>.
\<close>

theorem absent_id_counterexample:
  "tx_key ((example_tx ''x'' ''2024-03-01T10:00:00Z'')\<lparr>tx_id := Missing\<rparr>) = None
   \<and> tick_candidates init_monitor
        (example_env [(example_tx ''x'' ''2024-03-01T10:00:00Z'')\<lparr>tx_id := Missing\<rparr>])
      = [(example_tx ''x'' ''2024-03-01T10:00:00Z'')
           \<lparr>tx_id := Missing, account_name := Val ''Checking'', account_type := Val ''core''\<rparr>]
   \<and> last_checked_transactions (fst (check_for_new_transactions init_monitor
        (example_env [(example_tx ''x'' ''2024-03-01T10:00:00Z'')\<lparr>tx_id := Missing\<rparr>])))
      = {None}
   \<and> r_id ((example_row ''x'' None)\<lparr>r_id := None\<rparr>) = None
   \<and> upsert_transactions [(example_row ''x'' None)\<lparr>r_id := None\<rparr>] []
      = [(example_row ''x'' None)\<lparr>r_id := None\<rparr>]"
proof -
  let ?tx = "(example_tx ''x'' ''2024-03-01T10:00:00Z'')\<lparr>tx_id := Missing\<rparr>"
  have k: "tx_key ?tx = None"
    by (simp add: tx_key_def dict_get_def)
  have scan: "scan_accounts (example_env [?tx]) [example_account] {} []
      = (None, {None}, [?tx\<lparr>account_name := Val ''Checking'', account_type := Val ''core''\<rparr>])"
    by (simp add: example_env_def example_account_def dict_get_def account_display_name_def
        dict_store_def tx_key_def Let_def)
  have accts: "api_accounts (example_env [?tx]) @ api_credit_accounts (example_env [?tx])
      = [example_account]"
    by (simp add: example_env_def)
  have e: "last_checked_transactions init_monitor = {}"
    by (simp add: init_monitor_def)
  have c: "tick_candidates init_monitor (example_env [?tx])
      = [?tx\<lparr>account_name := Val ''Checking'', account_type := Val ''core''\<rparr>]"
    unfolding tick_candidates_def accts e scan by simp
  have s: "last_checked_transactions (fst (check_for_new_transactions init_monitor (example_env [?tx])))
      = {None}"
    unfolding check_seen accts e scan by simp
  have r: "r_id ((example_row ''x'' None)\<lparr>r_id := None\<rparr>) = None"
    by simp
  have u: "upsert_transactions [(example_row ''x'' None)\<lparr>r_id := None\<rparr>] []
      = [(example_row ''x'' None)\<lparr>r_id := None\<rparr>]"
    by (simp add: upsert_transactions_fold insert_or_replace_def)
  show ?thesis
    using k c s r u by simp
qed

text \<open>
  C8, amended. A record with an absent id is not skipped; it is handled under the identity
  \<^verbatim>\<open>None\<close>. In a tick that fetches such a record, \<^verbatim>\<open>None\<close> is in the seen-set afterwards;
  if \<^verbatim>\<open>None\<close> was not in the seen-set, exactly one record without id becomes a notification
  candidate, and if it was, none does. \<^verbatim>\<open>upsert_transactions\<close> stores a record without id
  as one more row with \<^verbatim>\<open>NULL\<close> id, whatever the store holds. In the initial and the
  incremental sync a record whose \<^verbatim>\<open>id\<close> key is missing raises \<^verbatim>\<open>KeyError\<close>, which ends
  the sync: of the account's records before it only the whole batches of 500 are upserted,
  the open batch is lost, and neither the rest of the account nor any later account is
  written. A record whose id is null is normalised to a row without id and upserted: a sync
  that completes leaves that row in the store and adds one row with \<^verbatim>\<open>NULL\<close> id for every
  such record it fetched.
\<close>

theorem absent_id_handling:
  "(fetch_accounts env (api_accounts env @ api_credit_accounts env) = Inr T
      \<and> tx \<in> set T \<and> tx_key tx = None \<longrightarrow>
        None \<in> last_checked_transactions (fst (check_for_new_transactions m env))
      \<and> (None \<notin> last_checked_transactions m \<longrightarrow>
            length (filter (\<lambda>c. tx_key c = None) (tick_candidates m env)) = 1)
      \<and> (None \<in> last_checked_transactions m \<longrightarrow>
            filter (\<lambda>c. tx_key c = None) (tick_candidates m env) = []))
   \<and> (r_id r = None \<longrightarrow>
        upsert_transactions [r] db = db @ [r]
      \<and> (upsert_transactions [r] ^^ N) db = db @ replicate N r)
   \<and> (tx_id tx' = Missing \<longrightarrow>
        normalize_tx i tx' = Inl KeyError
      \<and> sync_rows i (tx' # txs) batch db = (Some KeyError, db))
   \<and> (tx_id tx' = Null \<and> dict_get_default (kind tx') [] \<noteq> None \<longrightarrow>
        (\<exists>r'. normalize_tx i tx' = Inr r' \<and> r_id r' = None))
   \<and> (core_accounts senv @ credit_accounts senv = prior @ acct # rest
      \<and> sync_accounts (upstream senv) aft prior db = Some (None, db')
      \<and> dict_get (a_id acct) = Some i \<and> i \<noteq> []
      \<and> fetch_all_tx_for_account (upstream senv i) i aft = Some (Inr (pre @ tx' # post))
      \<and> (\<forall>t\<in>set pre. normalize_tx i t = Inr (g t))
      \<and> tx_id tx' = Missing \<longrightarrow>
        (aft = None \<longrightarrow>
           initial_sync_all_accounts senv db
           = Some (Some KeyError,
               fold insert_or_replace (take (500 * (length pre div 500)) (map g pre)) db'))
      \<and> (aft = get_max_createdAt db \<longrightarrow>
           incremental_sync senv db
           = Some (Some KeyError,
               fold insert_or_replace (take (500 * (length pre div 500)) (map g pre)) db')))
   \<and> ((\<forall>j\<in>set (synced_ids (core_accounts senv @ credit_accounts senv)).
          fetch_all_tx_for_account (upstream senv j) j aft = Some (Inr (F j))
          \<and> (\<forall>t\<in>set (F j). normalize_tx j t = Inr (h j t)))
      \<and> k \<in> set (synced_ids (core_accounts senv @ credit_accounts senv))
      \<and> tn \<in> set (F k) \<and> tx_id tn = Null \<longrightarrow>
        (\<exists>db2.
            (aft = None \<longrightarrow> initial_sync_all_accounts senv db = Some (None, db2))
          \<and> (aft = get_max_createdAt db \<longrightarrow> incremental_sync senv db = Some (None, db2))
          \<and> h k tn \<in> set db2 \<and> r_id (h k tn) = None
          \<and> length (filter (\<lambda>r. r_id r = None) db2)
              = length (filter (\<lambda>r. r_id r = None) db)
                + length (filter (\<lambda>r. r_id r = None)
                    (concat (map (\<lambda>j. map (h j) (F j))
                      (synced_ids (core_accounts senv @ credit_accounts senv)))))))"
proof -
  have feed: "None \<in> last_checked_transactions (fst (check_for_new_transactions m env))
      \<and> (None \<notin> last_checked_transactions m \<longrightarrow>
            length (filter (\<lambda>c. tx_key c = None) (tick_candidates m env)) = 1)
      \<and> (None \<in> last_checked_transactions m \<longrightarrow>
            filter (\<lambda>c. tx_key c = None) (tick_candidates m env) = [])"
    if f: "fetch_accounts env (api_accounts env @ api_credit_accounts env) = Inr T"
      and t: "tx \<in> set T" "tx_key tx = None"
  proof -
    from scan_accounts_ok [OF f, of "last_checked_transactions m" "[]"] obtain cs where
      cs: "scan_accounts env (api_accounts env @ api_credit_accounts env)
            (last_checked_transactions m) []
          = (None, last_checked_transactions m \<union> tx_key ` set T, [] @ cs)"
      "distinct (map tx_key cs)"
      "set (map tx_key cs) = tx_key ` set T - last_checked_transactions m"
      by blast
    have cands: "tick_candidates m env = cs"
      by (simp add: tick_candidates_def cs(1))
    have inT: "None \<in> tx_key ` set T"
      using t by force
    have 1: "None \<in> last_checked_transactions (fst (check_for_new_transactions m env))"
      using inT by (simp add: check_seen cs(1))
    have 2: "length (filter (\<lambda>c. tx_key c = None) cs) = 1" if "None \<notin> last_checked_transactions m"
    proof -
      have "None \<in> tx_key ` set cs"
        using cs(3) inT that by auto
      with cs(2) show ?thesis
        by (rule distinct_map_count)
    qed
    have 3: "filter (\<lambda>c. tx_key c = None) cs = []" if "None \<in> last_checked_transactions m"
    proof -
      have "None \<notin> tx_key ` set cs"
        using cs(3) that by auto
      then have "\<forall>c\<in>set cs. tx_key c \<noteq> None"
        by (metis imageI)
      then show ?thesis
        by (simp add: filter_empty_conv)
    qed
    show ?thesis
      unfolding cands using 1 2 3 by blast
  qed
  have store: "upsert_transactions [r] db = db @ [r]
      \<and> (upsert_transactions [r] ^^ N) db = db @ replicate N r" if n: "r_id r = None"
  proof -
    have one: "upsert_transactions [r] d = d @ [r]" for d
      using n by (simp add: upsert_transactions_fold insert_or_replace_def)
    have "(upsert_transactions [r] ^^ N) db = db @ replicate N r"
    proof (induction N)
      case 0
      then show ?case by simp
    next
      case (Suc N)
      then show ?case
        by (simp add: one replicate_append_same)
    qed
    with one show ?thesis by blast
  qed
  have missing: "normalize_tx i tx' = Inl KeyError
      \<and> sync_rows i (tx' # txs) batch db = (Some KeyError, db)" if "tx_id tx' = Missing"
    using that by (simp add: normalize_tx_def dict_index_def)
  have null: "\<exists>r'. normalize_tx i tx' = Inr r' \<and> r_id r' = None"
    if "tx_id tx' = Null" "dict_get_default (kind tx') [] \<noteq> None"
    using that by (auto simp: normalize_tx_def dict_index_def)
  have abort: "(aft = None \<longrightarrow>
           initial_sync_all_accounts senv db
           = Some (Some KeyError,
               fold insert_or_replace (take (500 * (length pre div 500)) (map g pre)) db'))
      \<and> (aft = get_max_createdAt db \<longrightarrow>
           incremental_sync senv db
           = Some (Some KeyError,
               fold insert_or_replace (take (500 * (length pre div 500)) (map g pre)) db'))"
    if a: "core_accounts senv @ credit_accounts senv = prior @ acct # rest"
      and p: "sync_accounts (upstream senv) aft prior db = Some (None, db')"
      and i: "dict_get (a_id acct) = Some i" "i \<noteq> []"
      and f: "fetch_all_tx_for_account (upstream senv i) i aft = Some (Inr (pre @ tx' # post))"
      and n: "\<forall>t\<in>set pre. normalize_tx i t = Inr (g t)"
      and m: "tx_id tx' = Missing"
  proof -
    have e: "normalize_tx i tx' = Inl KeyError"
      using m by (simp add: normalize_tx_def dict_index_def)
    have "sync_accounts (upstream senv) aft (prior @ acct # rest) db
        = Some (Some KeyError,
            fold insert_or_replace (take (500 * (length pre div 500)) (map g pre)) db')"
      using p i f n e by (rule sync_accounts_error)
    then show ?thesis
      unfolding initial_sync_all_accounts_def incremental_sync_def a by blast
  qed
  have stored: "\<exists>db2.
            (aft = None \<longrightarrow> initial_sync_all_accounts senv db = Some (None, db2))
          \<and> (aft = get_max_createdAt db \<longrightarrow> incremental_sync senv db = Some (None, db2))
          \<and> h k tn \<in> set db2 \<and> r_id (h k tn) = None
          \<and> length (filter (\<lambda>r. r_id r = None) db2)
              = length (filter (\<lambda>r. r_id r = None) db)
                + length (filter (\<lambda>r. r_id r = None)
                    (concat (map (\<lambda>j. map (h j) (F j))
                      (synced_ids (core_accounts senv @ credit_accounts senv)))))"
    if all: "\<forall>j\<in>set (synced_ids (core_accounts senv @ credit_accounts senv)).
          fetch_all_tx_for_account (upstream senv j) j aft = Some (Inr (F j))
          \<and> (\<forall>t\<in>set (F j). normalize_tx j t = Inr (h j t))"
      and k: "k \<in> set (synced_ids (core_accounts senv @ credit_accounts senv))"
      and t: "tn \<in> set (F k)" "tx_id tn = Null"
  proof -
    let ?ids = "synced_ids (core_accounts senv @ credit_accounts senv)"
    let ?rows = "concat (map (\<lambda>j. map (h j) (F j)) ?ids)"
    let ?db2 = "fold insert_or_replace ?rows db"
    have run: "sync_accounts (upstream senv) aft (core_accounts senv @ credit_accounts senv) db
        = Some (None, ?db2)"
      using all by (rule sync_accounts_fold)
    have nk: "normalize_tx k tn = Inr (h k tn)"
      using all k t(1) by blast
    then have "dict_get_default (kind tn) [] \<noteq> None"
      by (cases "dict_get_default (kind tn) []") (simp_all add: normalize_tx_def t(2) dict_index_def)
    then obtain r' where r': "normalize_tx k tn = Inr r'" "r_id r' = None"
      using t(2) by (auto simp: normalize_tx_def dict_index_def)
    have rid: "r_id (h k tn) = None"
      using nk r' by simp
    have "h k tn \<in> set (map (h k) (F k))"
      using t(1) by simp
    then have mem: "h k tn \<in> set ?rows"
      using k by auto
    have inn: "h k tn \<in> set ?db2"
      using mem by (rule fold_ior_new) (simp add: rid)
    have cnt: "length (filter (\<lambda>r. r_id r = None) ?db2)
        = length (filter (\<lambda>r. r_id r = None) db) + length (filter (\<lambda>r. r_id r = None) ?rows)"
      by (rule fold_ior_null_count)
    have 1: "aft = None \<longrightarrow> initial_sync_all_accounts senv db = Some (None, ?db2)"
      using run unfolding initial_sync_all_accounts_def by blast
    have 2: "aft = get_max_createdAt db \<longrightarrow> incremental_sync senv db = Some (None, ?db2)"
      using run unfolding incremental_sync_def by blast
    show ?thesis
      using 1 2 inn rid cnt by blast
  qed
  show ?thesis
    using feed store missing null abort stored by blast
qed

theorem absent_id_handling_witness:
  "fetch_accounts (example_env [(example_tx ''x'' ''2024-03-01T10:00:00Z'')\<lparr>tx_id := Missing\<rparr>])
      (api_accounts (example_env [(example_tx ''x'' ''2024-03-01T10:00:00Z'')\<lparr>tx_id := Missing\<rparr>])
       @ api_credit_accounts (example_env [(example_tx ''x'' ''2024-03-01T10:00:00Z'')\<lparr>tx_id := Missing\<rparr>]))
     = Inr [(example_tx ''x'' ''2024-03-01T10:00:00Z'')\<lparr>tx_id := Missing\<rparr>]
   \<and> None \<notin> last_checked_transactions init_monitor
   \<and> None \<in> last_checked_transactions (fst (check_for_new_transactions init_monitor
        (example_env [(example_tx ''x'' ''2024-03-01T10:00:00Z'')\<lparr>tx_id := Missing\<rparr>])))
   \<and> length (filter (\<lambda>c. tx_key c = None) (tick_candidates init_monitor
        (example_env [(example_tx ''x'' ''2024-03-01T10:00:00Z'')\<lparr>tx_id := Missing\<rparr>]))) = 1
   \<and> (upsert_transactions [(example_row ''x'' None)\<lparr>r_id := None\<rparr>] ^^ 2) []
      = [(example_row ''x'' None)\<lparr>r_id := None\<rparr>, (example_row ''x'' None)\<lparr>r_id := None\<rparr>]
   \<and> normalize_tx ''acc1'' ((example_tx ''x'' ''2024-03-01T10:00:00Z'')\<lparr>tx_id := Missing\<rparr>)
      = Inl KeyError
   \<and> (\<exists>r'. normalize_tx ''acc1'' ((example_tx ''x'' ''2024-03-01T10:00:00Z'')\<lparr>tx_id := Null\<rparr>)
          = Inr r' \<and> r_id r' = None)
   \<and> initial_sync_all_accounts
        (ledger_env
          [example_account, \<lparr> a_id = Val ''acc2'', a_name = Val ''Savings'', a_nickname = Missing \<rparr>]
          100
          (\<lambda>i. [example_tx ''a1'' ''2024-03-03T00:00:00Z'',
                (example_tx ''x'' ''2024-03-02T00:00:00Z'')\<lparr>tx_id := Missing\<rparr>,
                example_tx ''a2'' ''2024-03-01T00:00:00Z'']))
        []
      = Some (Some KeyError, [])
   \<and> incremental_sync
        (ledger_env
          [example_account, \<lparr> a_id = Val ''acc2'', a_name = Val ''Savings'', a_nickname = Missing \<rparr>]
          100
          (\<lambda>i. [example_tx ''a1'' ''2024-03-03T00:00:00Z'',
                (example_tx ''x'' ''2024-03-02T00:00:00Z'')\<lparr>tx_id := Missing\<rparr>,
                example_tx ''a2'' ''2024-03-01T00:00:00Z'']))
        []
      = Some (Some KeyError, [])
   \<and> (\<exists>db2.
        initial_sync_all_accounts
          (ledger_env [example_account] 100
            (\<lambda>i. [(example_tx ''n1'' ''2024-03-01T00:00:00Z'')\<lparr>tx_id := Null\<rparr>]))
          []
        = Some (None, db2)
      \<and> \<lparr> r_id = None, r_account_id = Some ''acc1'', r_createdAt = Some ''2024-03-01T00:00:00Z'',
            r_amount = Some (- 25), r_kind = Some ''debitcardtransaction'',
            r_vendorName = Some ''Acme Tools'', r_counterpartyName = None,
            r_bankDescription = None, r_mercuryCategory = None \<rparr> \<in> set db2
      \<and> length (filter (\<lambda>r. r_id r = None) db2) = 1)"
proof -
  let ?tx = "(example_tx ''x'' ''2024-03-01T10:00:00Z'')\<lparr>tx_id := Missing\<rparr>"
  let ?tn = "(example_tx ''x'' ''2024-03-01T10:00:00Z'')\<lparr>tx_id := Null\<rparr>"
  let ?env = "example_env [?tx]"
  let ?r = "(example_row ''x'' None)\<lparr>r_id := None\<rparr>"
  let ?tag = "\<lambda>tx. tx\<lparr>account_id := Val ''acc1''\<rparr>"
  let ?ok = "example_tx ''a1'' ''2024-03-03T00:00:00Z''"
  let ?bad = "(example_tx ''x'' ''2024-03-02T00:00:00Z'')\<lparr>tx_id := Missing\<rparr>"
  let ?ok2 = "example_tx ''a2'' ''2024-03-01T00:00:00Z''"
  let ?acct2 = "\<lparr> a_id = Val ''acc2'', a_name = Val ''Savings'', a_nickname = Missing \<rparr>"
  let ?senv = "ledger_env [example_account, ?acct2] 100 (\<lambda>i. [?ok, ?bad, ?ok2])"
  let ?n1 = "(example_tx ''n1'' ''2024-03-01T00:00:00Z'')\<lparr>tx_id := Null\<rparr>"
  let ?senv2 = "ledger_env [example_account] 100 (\<lambda>i. [?n1])"
  let ?nr = "\<lparr> r_id = None, r_account_id = Some ''acc1'', r_createdAt = Some ''2024-03-01T00:00:00Z'',
            r_amount = Some (- 25), r_kind = Some ''debitcardtransaction'',
            r_vendorName = Some ''Acme Tools'', r_counterpartyName = None,
            r_bankDescription = None, r_mercuryCategory = None \<rparr>"
  have f: "fetch_accounts ?env (api_accounts ?env @ api_credit_accounts ?env) = Inr [?tx]"
    by (simp add: example_env_def example_account_def dict_get_def)
  have t: "?tx \<in> set [?tx]" "tx_key ?tx = None"
    by (simp_all add: tx_key_def dict_get_def)
  have e: "None \<notin> last_checked_transactions init_monitor"
    by (simp add: init_monitor_def)
  have r: "r_id ?r = None"
    by simp
  have mi: "tx_id ?tx = Missing"
    by simp
  have nu: "tx_id ?tn = Null" "dict_get_default (kind ?tn) [] \<noteq> None"
    by (simp_all add: example_tx_def dict_get_default_def)
  note A = absent_id_handling [where env = ?env and T = "[?tx]" and tx = ?tx and m = init_monitor,
      THEN conjunct1]
  note A2 = absent_id_handling [where r = ?r and db = "[]" and N = 2,
      THEN conjunct2, THEN conjunct1]
  note A3 = absent_id_handling [where tx' = ?tx and i = "''acc1''" and txs = "[]" and batch = "[]"
      and db = "[]", THEN conjunct2, THEN conjunct2, THEN conjunct1]
  note B = absent_id_handling [where tx' = ?tn and i = "''acc1''",
      THEN conjunct2, THEN conjunct2, THEN conjunct2, THEN conjunct1]
  have 1: "None \<in> last_checked_transactions (fst (check_for_new_transactions init_monitor ?env))"
    "length (filter (\<lambda>c. tx_key c = None) (tick_candidates init_monitor ?env)) = 1"
    using A f t e by blast+
  have 2: "(upsert_transactions [?r] ^^ 2) [] = [] @ replicate 2 ?r"
    using A2 r by blast
  have 3: "normalize_tx ''acc1'' ?tx = Inl KeyError"
    using A3 mi by blast
  have 4: "\<exists>r'. normalize_tx ''acc1'' ?tn = Inr r' \<and> r_id r' = None"
    using B nu by blast
  have two: "(upsert_transactions [?r] ^^ 2) [] = [?r, ?r]"
    unfolding 2 by (simp add: numeral_2_eq_2)
  have accts: "core_accounts ?senv @ credit_accounts ?senv = [] @ example_account # [?acct2]"
    by (simp add: ledger_env_def)
  have prior: "sync_accounts (upstream ?senv) None [] [] = Some (None, [])"
    by simp
  have a: "dict_get (a_id example_account) = Some ''acc1''" "''acc1'' \<noteq> []"
    by (simp_all add: example_account_def dict_get_def)
  have k2: "tx_key ?ok2 = Some ''a2''" "tx_key ?ok = Some ''a1''" "tx_key ?bad = None"
    by (simp_all add: tx_key_def example_tx_def dict_get_def)
  have f3: "fetch_all_tx_for_account (upstream ?senv ''acc1'') ''acc1'' None
      = Some (Inr ([?tag ?ok] @ ?tag ?bad # [?tag ?ok2]))"
    unfolding fetch_all_tx_for_account_def ledger_env_def
    by (simp add: fetch_loop.simps serve_def after_cursor_def truthy_def crossed_def Let_def
        in_window_def k2)
  have n3: "\<forall>t\<in>set [?tag ?ok]. normalize_tx ''acc1'' t = Inr (projr (normalize_tx ''acc1'' t))"
    by (simp add: normalize_tagged example_row_of)
  have m3: "tx_id (?tag ?bad) = Missing"
    by simp
  have w0: "None = get_max_createdAt []"
    by (simp add: get_max_createdAt_def)
  note C = absent_id_handling [where senv = ?senv and prior = "[]" and acct = example_account
      and rest = "[?acct2]" and aft = None and db = "[]" and db' = "[]" and i = "''acc1''"
      and pre = "[?tag ?ok]" and tx' = "?tag ?bad" and post = "[?tag ?ok2]"
      and g = "\<lambda>t. projr (normalize_tx ''acc1'' t)",
      THEN conjunct2, THEN conjunct2, THEN conjunct2, THEN conjunct2, THEN conjunct1]
  have 5: "initial_sync_all_accounts ?senv []
      = Some (Some KeyError, fold insert_or_replace
          (take (500 * (length [?tag ?ok] div 500))
            (map (\<lambda>t. projr (normalize_tx ''acc1'' t)) [?tag ?ok])) [])"
    using C accts prior a f3 n3 m3 by blast
  have 6: "incremental_sync ?senv []
      = Some (Some KeyError, fold insert_or_replace
          (take (500 * (length [?tag ?ok] div 500))
            (map (\<lambda>t. projr (normalize_tx ''acc1'' t)) [?tag ?ok])) [])"
    using C accts prior a f3 n3 m3 w0 by blast
  have five: "initial_sync_all_accounts ?senv [] = Some (Some KeyError, [])"
    unfolding 5 by simp
  have six: "incremental_sync ?senv [] = Some (Some KeyError, [])"
    unfolding 6 by simp
  have s: "synced_ids (core_accounts ?senv2 @ credit_accounts ?senv2) = [''acc1'']"
    by (simp add: ledger_env_def synced_ids_def example_account_def dict_get_def)
  have kn: "tx_key ?n1 = None"
    by (simp add: tx_key_def dict_get_def)
  have fn: "fetch_all_tx_for_account (upstream ?senv2 ''acc1'') ''acc1'' None
      = Some (Inr [?tag ?n1])"
    unfolding fetch_all_tx_for_account_def ledger_env_def
    by (simp add: fetch_loop.simps serve_def after_cursor_def truthy_def crossed_def Let_def
        in_window_def kn)
  have nn: "normalize_tx ''acc1'' (?tag ?n1) = Inr ?nr"
    unfolding normalize_tagged
    by (simp add: normalize_tx_def example_tx_def empty_tx_def dict_index_def dict_get_default_def
        dict_get_def py_lower_kind sync_vendor_name_def py_or_def truthy_def card_merchant_def)
  have all: "\<forall>j\<in>set (synced_ids (core_accounts ?senv2 @ credit_accounts ?senv2)).
      fetch_all_tx_for_account (upstream ?senv2 j) j None = Some (Inr ((\<lambda>j. [?tag ?n1]) j))
      \<and> (\<forall>t\<in>set ((\<lambda>j. [?tag ?n1]) j). normalize_tx j t = Inr ((\<lambda>j t. ?nr) j t))"
    unfolding s using fn nn by simp
  have kin: "''acc1'' \<in> set (synced_ids (core_accounts ?senv2 @ credit_accounts ?senv2))"
    unfolding s by simp
  have tin: "?tag ?n1 \<in> set ((\<lambda>j. [?tag ?n1]) ''acc1'')" "tx_id (?tag ?n1) = Null"
    by simp_all
  note D = absent_id_handling [where senv = ?senv2 and aft = None and db = "[]"
      and F = "\<lambda>j. [?tag ?n1]" and h = "\<lambda>j t. ?nr" and k = "''acc1''" and tn = "?tag ?n1",
      THEN conjunct2, THEN conjunct2, THEN conjunct2, THEN conjunct2, THEN conjunct2]
  have "\<exists>db2. (None = None \<longrightarrow> initial_sync_all_accounts ?senv2 [] = Some (None, db2))
      \<and> ?nr \<in> set db2
      \<and> length (filter (\<lambda>r. r_id r = None) db2)
          = length (filter (\<lambda>r. r_id r = None) ([]::row list))
            + length (filter (\<lambda>r. r_id r = None)
                (concat (map (\<lambda>j. map ((\<lambda>j t. ?nr) j) ((\<lambda>j. [?tag ?n1]) j))
                  (synced_ids (core_accounts ?senv2 @ credit_accounts ?senv2)))))"
    using D all kin tin by blast
  then have 7: "\<exists>db2. initial_sync_all_accounts ?senv2 [] = Some (None, db2)
      \<and> ?nr \<in> set db2 \<and> length (filter (\<lambda>r. r_id r = None) db2) = 1"
    unfolding s by simp
  show ?thesis
    using f e 1 two 3 4 five six 7 by blast
qed

section \<open>A full sync followed by a month query\<close>

lemma month_start_2024_1: "month_start 2024 1 = ''2024-01-01T00:00:00+00:00''"
  by code_simp

lemma month_start_2024_2: "month_start 2024 2 = ''2024-02-01T00:00:00+00:00''"
  by code_simp

theorem month_query_witness:
  "initial_sync_all_accounts
     (ledger_env [example_account] 2
       (\<lambda>i. [example_tx ''t3'' ''2024-02-03T09:30:00Z'', example_tx ''t2'' ''2024-01-20T08:00:00Z'',
             example_tx ''t1'' ''2024-01-05T10:00:00Z'']))
     []
   = Some (None, [projr (normalize_tx ''acc1'' (example_tx ''t3'' ''2024-02-03T09:30:00Z'')),
                  projr (normalize_tx ''acc1'' (example_tx ''t2'' ''2024-01-20T08:00:00Z'')),
                  projr (normalize_tx ''acc1'' (example_tx ''t1'' ''2024-01-05T10:00:00Z''))])
   \<and> get_cached_transactions_for_month
        [projr (normalize_tx ''acc1'' (example_tx ''t3'' ''2024-02-03T09:30:00Z'')),
         projr (normalize_tx ''acc1'' (example_tx ''t2'' ''2024-01-20T08:00:00Z'')),
         projr (normalize_tx ''acc1'' (example_tx ''t1'' ''2024-01-05T10:00:00Z''))]
        2024 1
      = [projr (normalize_tx ''acc1'' (example_tx ''t1'' ''2024-01-05T10:00:00Z'')),
         projr (normalize_tx ''acc1'' (example_tx ''t2'' ''2024-01-20T08:00:00Z''))]
   \<and> sorted (map r_createdAt (get_cached_transactions_for_month
        [projr (normalize_tx ''acc1'' (example_tx ''t3'' ''2024-02-03T09:30:00Z'')),
         projr (normalize_tx ''acc1'' (example_tx ''t2'' ''2024-01-20T08:00:00Z'')),
         projr (normalize_tx ''acc1'' (example_tx ''t1'' ''2024-01-05T10:00:00Z''))]
        2024 1))
   \<and> timestamp_text 2024 2 ''03T09:30:00Z'' = ''2024-02-03T09:30:00Z''
   \<and> ''01T00:00:00+00:00'' \<le> ''03T09:30:00Z''
   \<and> projr (normalize_tx ''acc1'' (example_tx ''t3'' ''2024-02-03T09:30:00Z''))
      \<notin> set (get_cached_transactions_for_month
        [projr (normalize_tx ''acc1'' (example_tx ''t3'' ''2024-02-03T09:30:00Z'')),
         projr (normalize_tx ''acc1'' (example_tx ''t2'' ''2024-01-20T08:00:00Z'')),
         projr (normalize_tx ''acc1'' (example_tx ''t1'' ''2024-01-05T10:00:00Z''))]
        (int 2024) (int 1))"
proof -
  let ?txs = "[example_tx ''t3'' ''2024-02-03T09:30:00Z'', example_tx ''t2'' ''2024-01-20T08:00:00Z'',
               example_tx ''t1'' ''2024-01-05T10:00:00Z'']"
  let ?db = "[projr (normalize_tx ''acc1'' (example_tx ''t3'' ''2024-02-03T09:30:00Z'')),
              projr (normalize_tx ''acc1'' (example_tx ''t2'' ''2024-01-20T08:00:00Z'')),
              projr (normalize_tx ''acc1'' (example_tx ''t1'' ''2024-01-05T10:00:00Z''))]"
  have p: "(0::nat) < 2"
    by simp
  have s: "synced_ids [example_account] = [''acc1'']"
    by (simp add: synced_ids_def example_account_def dict_get_def)
  have wf: "\<forall>i\<in>set (synced_ids [example_account]). well_formed ((\<lambda>i::string. ?txs) i)"
    by (simp add: well_formed_def tx_key_def example_tx_def dict_get_def truthy_def
        dict_get_default_def)
  have sync: "initial_sync_all_accounts (ledger_env [example_account] 2 (\<lambda>i. ?txs)) [] = Some (None, ?db)"
    unfolding initial_sync_all_accounts_def ledger_env_def
    using ledger_sync_result [OF wf p, of None "[]"]
    by (simp add: s sent_bound_def truthy_def in_window_def example_row_of insert_or_replace_def)
  have q: "get_cached_transactions_for_month ?db 2024 1
      = [projr (normalize_tx ''acc1'' (example_tx ''t1'' ''2024-01-05T10:00:00Z'')),
         projr (normalize_tx ''acc1'' (example_tx ''t2'' ''2024-01-20T08:00:00Z''))]"
    by (simp add: get_cached_transactions_for_month_def next_month_def month_start_2024_1
        month_start_2024_2 created_between_def example_row_of)
  have so: "sorted (map r_createdAt (get_cached_transactions_for_month ?db 2024 1))"
    using month_query [of ?db 2024 1] by blast
  let ?r3 = "projr (normalize_tx ''acc1'' (example_tx ''t3'' ''2024-02-03T09:30:00Z''))"
  have ts: "timestamp_text 2024 2 ''03T09:30:00Z'' = ''2024-02-03T09:30:00Z''"
    by code_simp
  have r3: "?r3 \<in> set ?db" "r_createdAt ?r3 = Some (timestamp_text 2024 2 ''03T09:30:00Z'')"
    unfolding ts by (simp_all add: example_row_of)
  have rest: "''01T00:00:00+00:00'' \<le> ''03T09:30:00Z''"
    by simp
  have bounds: "(2024::nat) < 9999" "(2024::nat) < 10000" "(1::nat) \<le> 1" "(1::nat) \<le> 12"
    "(1::nat) \<le> 2" "(2::nat) \<le> 12"
    by simp_all
  have "?r3 \<in> set (get_cached_transactions_for_month ?db (int 2024) (int 1))
      \<longleftrightarrow> (2024::nat) = 2024 \<and> (2::nat) = 1"
    using month_query [of ?db 2024 1 ?r3 2024 2 "''03T09:30:00Z''" 2024 1] r3 rest bounds
    by blast
  then have out: "?r3 \<notin> set (get_cached_transactions_for_month ?db (int 2024) (int 1))"
    by simp
  show ?thesis
    using sync q so ts rest out by blast
qed

end
